theory Spec2Isabelle
  imports Complex_Main
begin

section \<open>Configuration (ExtractV3.js, lines 5-43)\<close>

definition BASE_DELAY_MS :: nat where
  "BASE_DELAY_MS = 500"

definition JITTER_MS :: nat where
  "JITTER_MS = 200"

definition RATE_LIMIT_COOLDOWN_MS :: nat where
  "RATE_LIMIT_COOLDOWN_MS = 1000"

definition MAX_RESULTS_PER_QUERY :: nat where
  "MAX_RESULTS_PER_QUERY = 15"

text \<open>
  The alphabet is an array of strings: 39 one-character strings and the three-character
  string \<open>%20\<close>.
\<close>

definition VALID_CHARACTERS :: "string list" where
  "VALID_CHARACTERS =
     map (\<lambda>c. [c]) ''0123456789abcdefghijklmnopqrstuvwxyz+.-'' @ [''%20'']"

definition MIN_CONCURRENCY :: int where
  "MIN_CONCURRENCY = 5"

definition MAX_CONCURRENCY :: int where
  "MAX_CONCURRENCY = 80"

definition CONCURRENCY_ADJUSTMENT_UP :: int where
  "CONCURRENCY_ADJUSTMENT_UP = 1"

text \<open>
  The factor is the number nine tenths. In the program it is the double nearest to it, and
  the product with an integer from 0 to 80 has the same floor for both.
\<close>

definition CONCURRENCY_ADJUSTMENT_DOWN_FACTOR :: real where
  "CONCURRENCY_ADJUSTMENT_DOWN_FACTOR = 9 / 10"

definition BACKLOG_HIGH_THRESHOLD :: int where
  "BACKLOG_HIGH_THRESHOLD = 100"

definition BACKLOG_LOW_THRESHOLD :: int where
  "BACKLOG_LOW_THRESHOLD = 20"

text \<open>The options given to the queue's constructor: \<open>intervalCap\<close> and \<open>interval\<close>.\<close>

definition INTERVAL_CAP :: nat where
  "INTERVAL_CAP = 80"

definition INTERVAL_MS :: nat where
  "INTERVAL_MS = 60000"

section \<open>State\<close>

text \<open>
  The content of the progress file after one write: the object built by \<open>saveProgress\<close>.
\<close>

record snapshot =
  snap_totalRequests :: nat
  snap_totalNames :: nat
  snap_names :: "string list"

text \<open>
  What \<open>response.data.results\<close> reads as, in the three cases that line 122 and line 153
  tell apart: no such field or a falsy value (\<open>undefined\<close>, \<open>null\<close>, \<open>false\<close>, 0, the empty
  string), for which \<open>||\<close> takes its right operand; an array; another truthy value (a
  number, a string, \<open>true\<close>, an object), which has no method \<open>forEach\<close>. The elements of an
  array are taken to be strings: the program counts them and puts them in a set.
\<close>

datatype results =
    Falsy
  | Items "string list"
  | Other

text \<open>
  The body of a 2xx response, \<open>response.data\<close>: \<open>null\<close> or \<open>undefined\<close>, of which reading
  a field throws a TypeError; or any other value, with what its field \<open>results\<close> reads as.
\<close>

datatype body =
    NoBody
  | Body results

text \<open>
  How one HTTP call settles: a 2xx response resolves it; status 429 and every other
  failure (another status, a timeout, a connection error) reject it.
\<close>

datatype outcome =
    Response2xx body
  | Response429
  | RequestError

text \<open>The value a call of \<open>queryAPI\<close> resolves to: an array, or a value that is no array.\<close>

datatype jsvalue =
    Array "string list"
  | NotArray

text \<open>
  A task started by the queue is suspended at one of the \<open>await\<close>s it can reach: the HTTP
  call of \<open>queryAPI prefix attempt\<close>; the delay before the retry
  \<open>queryAPI prefix attempt\<close>; the call of \<open>queryAPI\<close> in \<open>processPrefix\<close>, once it has
  resolved and \<open>processPrefix\<close> has not yet gone on; the last delay of \<open>processPrefix\<close>;
  or the \<open>await\<close> of the queue's own job on a \<open>processPrefix\<close> that returned at once, after
  which the queue counts the task as finished.
\<close>

datatype task =
    AwaitResponse string nat
  | AwaitDelay string nat
  | AwaitResume string jsvalue
  | AwaitFinalDelay string
  | AwaitNext string

text \<open>
  The module's variables, the queue object and the progress file. A JavaScript \<open>Set\<close>
  iterates in insertion order: \<open>discoveredNames\<close>, which \<open>Array.from\<close> reads, is a list
  without duplicates; \<open>visitedPrefixes\<close>, which is only tested for membership, is a set.
  \<open>currentConcurrency\<close> only ever holds integers (26, a sum with 1, a \<open>Math.floor\<close>, or
  a bound). Of the queue: its concurrency, the number of tasks it has started in the
  current interval, the prefixes of its waiting tasks, oldest first, and its running
  tasks (its \<open>pending\<close> is their number, its \<open>size\<close> the number of the waiting ones).

  The last four fields are history variables, read by no definition of the program: every
  prefix given to \<open>queue.add\<close>, every HTTP request issued (prefix and attempt number),
  every array with which \<open>processPrefix\<close> went on after \<open>queryAPI\<close>, and every content
  written to the progress file, each in order.
\<close>

record state =
  totalRequests :: nat
  currentConcurrency :: int
  visitedPrefixes :: "string set"
  discoveredNames :: "string list"
  lastSavedCount :: nat
  queue_concurrency :: int
  queue_intervalCount :: nat
  queue_waiting :: "string list"
  queue_running :: "task list"
  idle_resolved :: bool
  added :: "string list"
  requests :: "(string \<times> nat) list"
  answers :: "(string \<times> string list) list"
  written :: "snapshot list"

text \<open>The state when the module has been loaded, before \<open>extractAllNames\<close> runs.\<close>

definition loaded :: state where
  "loaded = \<lparr> totalRequests = 0, currentConcurrency = 26, visitedPrefixes = {},
     discoveredNames = [], lastSavedCount = 0, queue_concurrency = 26,
     queue_intervalCount = 0, queue_waiting = [], queue_running = [], idle_resolved = False,
     added = [], requests = [], answers = [], written = [] \<rparr>"

section \<open>Helpers\<close>

text \<open>
  \<open>delay(ms)\<close> sets a timer of \<open>ms + Math.floor(Math.random() * JITTER_MS)\<close>
  milliseconds; the number drawn by \<open>Math.random\<close> is a parameter.
\<close>

definition delay :: "nat \<Rightarrow> real \<Rightarrow> nat" where
  "delay ms random = ms + nat \<lfloor>random * real JITTER_MS\<rfloor>"

text \<open>\<open>Set.prototype.add\<close> on an insertion-ordered set.\<close>

definition set_add :: "'a \<Rightarrow> 'a list \<Rightarrow> 'a list" where
  "set_add x xs = (if x \<in> set xs then xs else xs @ [x])"

text \<open>
  Lines 58-66: \<open>saveProgress\<close> overwrites the progress file; the write is taken to
  succeed, and the content written is added to \<open>written\<close>.
\<close>

definition saveProgress :: "state \<Rightarrow> state" where
  "saveProgress s =
     s\<lparr>written := written s @
        [\<lparr> snap_totalRequests = totalRequests s,
           snap_totalNames = length (discoveredNames s),
           snap_names = discoveredNames s \<rparr>]\<rparr>"

definition maybeSaveProgress :: "state \<Rightarrow> state" where
  "maybeSaveProgress s =
     (if length (discoveredNames s) \<ge> lastSavedCount s + 500
      then saveProgress (s\<lparr>lastSavedCount := length (discoveredNames s)\<rparr>)
      else s)"

text \<open>
  \<open>adjustConcurrency\<close> up to the starts that the queue makes when its concurrency is
  set: in a run they are \<open>Start\<close> events.
\<close>

definition adjustConcurrency :: "int \<Rightarrow> state \<Rightarrow> state" where
  "adjustConcurrency newConcurrency s =
     (let c = max MIN_CONCURRENCY (min MAX_CONCURRENCY newConcurrency)
      in s\<lparr>currentConcurrency := c, queue_concurrency := c\<rparr>)"

text \<open>
  \<open>Math.floor(currentConcurrency * CONCURRENCY_ADJUSTMENT_DOWN_FACTOR)\<close>, the argument
  of both multiplicative decreases.
\<close>

definition decreased :: "state \<Rightarrow> int" where
  "decreased s = \<lfloor>real_of_int (currentConcurrency s) * CONCURRENCY_ADJUSTMENT_DOWN_FACTOR\<rfloor>"

text \<open>The body of the interval callback of \<open>monitorBacklog\<close>, run every 5 seconds.\<close>

definition monitorBacklog :: "state \<Rightarrow> state" where
  "monitorBacklog s =
     (let pending = int (length (queue_running s));
          size = int (length (queue_waiting s));
          backlog = pending + size
      in if backlog > BACKLOG_HIGH_THRESHOLD then adjustConcurrency (decreased s) s
         else if backlog < BACKLOG_LOW_THRESHOLD \<and> currentConcurrency s < MAX_CONCURRENCY
           then adjustConcurrency (currentConcurrency s + CONCURRENCY_ADJUSTMENT_UP) s
         else s)"

section \<open>queryAPI\<close>

text \<open>Line 122: \<open>response.data.results || []\<close>, when \<open>response.data\<close> has fields.\<close>

definition results_or_empty :: "results \<Rightarrow> jsvalue" where
  "results_or_empty r =
     (case r of Falsy \<Rightarrow> Array [] | Items names \<Rightarrow> Array names | Other \<Rightarrow> NotArray)"

text \<open>What \<open>queryAPI\<close> does once the call has settled: return, or sleep and call itself.\<close>

datatype continuation =
    Return jsvalue
  | RetryAfter nat nat

text \<open>Line 115: the part of \<open>queryAPI\<close> before its \<open>await\<close>.\<close>

definition queryAPI_enter :: "string \<Rightarrow> nat \<Rightarrow> state \<Rightarrow> state" where
  "queryAPI_enter prefix attempt s =
     s\<lparr>totalRequests := totalRequests s + 1,
       requests := requests s @ [(prefix, attempt)]\<rparr>"

text \<open>
  Lines 120-139: the rest of the \<open>try\<close> block, and the \<open>catch\<close> block. On a 2xx response
  without a body, line 122 throws after line 121 has run; the TypeError is caught, has no
  field \<open>response\<close>, and is handled by the branches of lines 131-139.
\<close>

definition queryAPI_settle :: "outcome \<Rightarrow> nat \<Rightarrow> state \<Rightarrow> continuation \<times> state" where
  "queryAPI_settle r attempt s =
     (case r of
        Response2xx b \<Rightarrow>
          (case b of
             Body results \<Rightarrow>
               (Return (results_or_empty results),
                adjustConcurrency (currentConcurrency s + CONCURRENCY_ADJUSTMENT_UP) s)
           | NoBody \<Rightarrow>
               if attempt \<le> 5
               then (RetryAfter (BASE_DELAY_MS * 2 ^ attempt) (attempt + 1),
                     adjustConcurrency (currentConcurrency s + CONCURRENCY_ADJUSTMENT_UP) s)
               else (Return (Array []),
                     adjustConcurrency (currentConcurrency s + CONCURRENCY_ADJUSTMENT_UP) s))
      | Response429 \<Rightarrow>
          (RetryAfter RATE_LIMIT_COOLDOWN_MS (attempt + 1),
           adjustConcurrency (decreased s) s)
      | RequestError \<Rightarrow>
          if attempt \<le> 5
          then (RetryAfter (BASE_DELAY_MS * 2 ^ attempt) (attempt + 1), s)
          else (Return (Array []), s))"

text \<open>
  One call of \<open>queryAPI\<close> on its own. \<open>net i\<close> is the outcome of the HTTP call that
  comes after \<open>i\<close> earlier ones; the recursive call sees the outcomes that are left. The
  value is \<open>None\<close> when the call never settles.
\<close>

partial_function (option)
  queryAPI :: "string \<Rightarrow> (nat \<Rightarrow> outcome) \<Rightarrow> nat \<Rightarrow> state \<Rightarrow> (jsvalue \<times> state) option"
where
  "queryAPI prefix net attempt s =
     (case queryAPI_settle (net 0) attempt (queryAPI_enter prefix attempt s) of
        (Return results, s') \<Rightarrow> Some (results, s')
      | (RetryAfter ms attempt', s') \<Rightarrow> queryAPI prefix (\<lambda>i. net (Suc i)) attempt' s')"

text \<open>The outcomes \<open>rs\<close>, one HTTP call after the other, and \<open>r\<close> for every call after them.\<close>

definition scripted :: "outcome list \<Rightarrow> outcome \<Rightarrow> nat \<Rightarrow> outcome" where
  "scripted rs r i = (if i < length rs then rs ! i else r)"

text \<open>
  The times (in ms) at which one call of \<open>queryAPI\<close>, entered at time \<open>t\<close>, issues its HTTP
  requests, given for each request its outcome, the time it takes to settle and the
  number \<open>Math.random\<close> returns in the delay that follows; a timer is taken to fire when
  its delay has passed.
\<close>

fun requestTimes ::
  "string \<Rightarrow> nat \<Rightarrow> nat \<Rightarrow> (outcome \<times> nat \<times> real) list \<Rightarrow> state \<Rightarrow> nat list"
where
  "requestTimes prefix t attempt [] s = [t]"
| "requestTimes prefix t attempt ((r, latency, random) # rest) s =
     t # (case queryAPI_settle r attempt (queryAPI_enter prefix attempt s) of
            (Return results, s') \<Rightarrow> []
          | (RetryAfter ms attempt', s') \<Rightarrow>
              requestTimes prefix (t + latency + delay ms random) attempt' rest s')"

section \<open>processPrefix\<close>

text \<open>
  \<open>queue.add\<close> up to the queue's attempt to start a task: the task joins the waiting
  tasks.
\<close>

definition queue_add :: "string \<Rightarrow> state \<Rightarrow> state" where
  "queue_add prefix s =
     s\<lparr>queue_waiting := queue_waiting s @ [prefix], added := added s @ [prefix]\<rparr>"

text \<open>
  Lines 161-167: the expansion loop, up to the starts that the queue makes in
  \<open>queue.add\<close>: in a run they are \<open>Start\<close> events.
\<close>

fun expand :: "string \<Rightarrow> string list \<Rightarrow> state \<Rightarrow> state" where
  "expand prefix [] s = s"
| "expand prefix (char # chars) s =
     expand prefix chars
       (if prefix @ char \<notin> visitedPrefixes s then queue_add (prefix @ char) s else s)"

text \<open>
  Lines 149-152: \<open>processPrefix\<close> up to its first \<open>await\<close>. The task is suspended on the
  HTTP call, or has returned.
\<close>

definition processPrefix_enter :: "string \<Rightarrow> state \<Rightarrow> state \<times> task option" where
  "processPrefix_enter prefix s =
     (if prefix \<in> visitedPrefixes s then (s, None)
      else (queryAPI_enter prefix 1 (s\<lparr>visitedPrefixes := insert prefix (visitedPrefixes s)\<rparr>),
            Some (AwaitResponse prefix 1)))"

text \<open>
  Lines 153-168: \<open>processPrefix\<close> from the array \<open>queryAPI\<close> resolved to, up to the last
  delay.
\<close>

definition processPrefix_resume :: "string \<Rightarrow> string list \<Rightarrow> state \<Rightarrow> state" where
  "processPrefix_resume prefix results s =
     (let s1 = s\<lparr>discoveredNames := foldl (\<lambda>names name. set_add name names)
                                       (discoveredNames s) results,
                 answers := answers s @ [(prefix, results)]\<rparr>;
          s2 = maybeSaveProgress s1
      in if length results = MAX_RESULTS_PER_QUERY
         then expand prefix VALID_CHARACTERS s2
         else s2)"

text \<open>
  Lines 152-168, from the value of \<open>queryAPI\<close>: on a value that is not an array,
  \<open>results.forEach\<close> is no function, and the call at line 153 throws a TypeError, with
  which \<open>processPrefix\<close> rejects.
\<close>

datatype error = TypeError

definition processPrefix_continue :: "string \<Rightarrow> jsvalue \<Rightarrow> state \<Rightarrow> error + state" where
  "processPrefix_continue prefix results s =
     (case results of
        Array names \<Rightarrow> Inr (processPrefix_resume prefix names s)
      | NotArray \<Rightarrow> Inl TypeError)"

text \<open>
  One call of \<open>processPrefix\<close> on its own, given the outcomes of its HTTP calls, up to
  its last delay or to the exception it rejects with; \<open>None\<close> when it gets to neither.
\<close>

definition processPrefix ::
  "string \<Rightarrow> (nat \<Rightarrow> outcome) \<Rightarrow> state \<Rightarrow> (error + state) option"
where
  "processPrefix prefix net s =
     (if prefix \<in> visitedPrefixes s then Some (Inr s)
      else case queryAPI prefix net 1
                  (s\<lparr>visitedPrefixes := insert prefix (visitedPrefixes s)\<rparr>) of
             None \<Rightarrow> None
           | Some (results, s') \<Rightarrow> Some (processPrefix_continue prefix results s'))"

section \<open>The queue\<close>

text \<open>
  The queue is an object of the library p-queue, made with a concurrency, an interval
  and an interval cap (lines 38-43); all its tasks have the same priority, and it is never
  paused. Its job for a task counts the task as running and in the current interval, and
  calls \<open>processPrefix\<close>, which runs to its first \<open>await\<close>.
\<close>

definition PQueue_run :: "string \<Rightarrow> state \<Rightarrow> state" where
  "PQueue_run prefix s =
     (case processPrefix_enter prefix (s\<lparr>queue_intervalCount := queue_intervalCount s + 1\<rparr>) of
        (s', None) \<Rightarrow> s'\<lparr>queue_running := queue_running s' @ [AwaitNext prefix]\<rparr>
      | (s', Some t) \<Rightarrow> s'\<lparr>queue_running := queue_running s' @ [t]\<rparr>)"

text \<open>
  The two tests of the queue: fewer tasks started in the current interval than the
  interval cap, and fewer running tasks than the concurrency.
\<close>

definition doesIntervalAllowAnother :: "state \<Rightarrow> bool" where
  "doesIntervalAllowAnother s \<longleftrightarrow> queue_intervalCount s < INTERVAL_CAP"

definition doesConcurrentAllowAnother :: "state \<Rightarrow> bool" where
  "doesConcurrentAllowAnother s \<longleftrightarrow> int (length (queue_running s)) < queue_concurrency s"

text \<open>
  The queue's attempt to start a task: when a task is waiting and both tests allow
  another, the oldest waiting task leaves the waiting tasks and its job runs. The count of
  the interval is the one of the state: the beginning of a new interval, which sets it to
  0, is an event of the run.
\<close>

definition tryToStartAnother :: "state \<Rightarrow> state" where
  "tryToStartAnother s =
     (case queue_waiting s of
        [] \<Rightarrow> s
      | prefix # waiting \<Rightarrow>
          if doesIntervalAllowAnother s \<and> doesConcurrentAllowAnother s
          then PQueue_run prefix (s\<lparr>queue_waiting := waiting\<rparr>)
          else s)"

text \<open>\<open>queue.add\<close>: the task joins the waiting tasks, and the queue tries to start one.\<close>

definition PQueue_add :: "string \<Rightarrow> state \<Rightarrow> state" where
  "PQueue_add prefix s = tryToStartAnother (queue_add prefix s)"

text \<open>Lines 163-166: the body of the expansion loop.\<close>

definition enqueue :: "string \<Rightarrow> state \<Rightarrow> state" where
  "enqueue newPrefix s =
     (if newPrefix \<notin> visitedPrefixes s then PQueue_add newPrefix s else s)"

text \<open>
  Lines 184-190: \<open>extractAllNames\<close> up to its \<open>await\<close>, one \<open>queue.add\<close> for each element
  of the alphabet.
\<close>

definition extractAllNames_enter :: state where
  "extractAllNames_enter = foldl (\<lambda>s char. PQueue_add char s) loaded VALID_CHARACTERS"

section \<open>The run\<close>

text \<open>
  Lines 184-187 up to the starts that the queue makes: \<open>extractAllNames\<close> adds one task
  for each element of the alphabet.
\<close>

definition init :: state where
  "init = foldl (\<lambda>s char. queue_add char s) loaded VALID_CHARACTERS"

text \<open>
  Between two \<open>await\<close>s a task runs alone. A run is a sequence of such uninterrupted
  parts: the queue starts the oldest waiting task; the HTTP call of a running task
  settles; the timer of a running task fires, or the queue's job goes on after a
  \<open>processPrefix\<close> that returned at once; \<open>processPrefix\<close> goes on with the value
  \<open>queryAPI\<close> resolved to; the timer of \<open>monitorBacklog\<close> fires; a new interval of the
  queue begins; the queue becomes idle and \<open>extractAllNames\<close> goes on after
  \<open>queue.onIdle()\<close>, with \<open>saveProgress\<close> and then \<open>saveToFile\<close>, which writes the same
  three fields (and the elapsed time) to the same file. An event names the running task
  it is about by the \<open>await\<close> the task is suspended at; an event that cannot happen in the
  state gives \<open>None\<close>.

  A \<open>processPrefix\<close> that rejects ends its task: the queue counts it as finished and
  rejects the promise that \<open>queue.add\<close> returned, which nothing handles; the run may end
  there, and the model lets it go on.

  The queue's own tests only restrict when a task may start, so the run lets the oldest
  waiting task start at any time, and a new interval begin at any time. The queue starts
  waiting tasks in the middle of a part, when the part sets the queue's concurrency or
  calls \<open>queue.add\<close>, and at the end of a part that ends a task. Such a start is the
  \<open>Start\<close> that follows the part: what a start changes (\<open>visitedPrefixes\<close> on a prefix that
  was waiting, \<open>totalRequests\<close>, the requests, the running tasks, the count of the
  interval) is read by no part after it has set the concurrency, and by the expansion
  loop only in its test of \<open>visitedPrefixes\<close> on the children it has not added yet, none
  of which is waiting.
\<close>

datatype event =
    Start
  | Settle task outcome
  | Wake task
  | Resume task
  | Tick
  | Interval
  | Idle

fun step :: "event \<Rightarrow> state \<Rightarrow> state option" where
  "step Start s =
     (case queue_waiting s of
        [] \<Rightarrow> None
      | prefix # waiting \<Rightarrow> Some (PQueue_run prefix (s\<lparr>queue_waiting := waiting\<rparr>)))"
| "step (Settle t r) s =
     (if t \<in> set (queue_running s) then
        (case t of
           AwaitResponse prefix attempt \<Rightarrow>
             (case queryAPI_settle r attempt s of
                (Return results, s') \<Rightarrow>
                  Some (s'\<lparr>queue_running :=
                             remove1 t (queue_running s) @ [AwaitResume prefix results]\<rparr>)
              | (RetryAfter ms attempt', s') \<Rightarrow>
                  Some (s'\<lparr>queue_running :=
                             remove1 t (queue_running s) @ [AwaitDelay prefix attempt']\<rparr>))
         | _ \<Rightarrow> None)
      else None)"
| "step (Wake t) s =
     (if t \<in> set (queue_running s) then
        (case t of
           AwaitDelay prefix attempt \<Rightarrow>
             Some ((queryAPI_enter prefix attempt s)
                     \<lparr>queue_running :=
                        remove1 t (queue_running s) @ [AwaitResponse prefix attempt]\<rparr>)
         | AwaitFinalDelay prefix \<Rightarrow>
             Some (s\<lparr>queue_running := remove1 t (queue_running s)\<rparr>)
         | AwaitNext prefix \<Rightarrow>
             Some (s\<lparr>queue_running := remove1 t (queue_running s)\<rparr>)
         | _ \<Rightarrow> None)
      else None)"
| "step (Resume t) s =
     (if t \<in> set (queue_running s) then
        (case t of
           AwaitResume prefix results \<Rightarrow>
             (case processPrefix_continue prefix results s of
                Inr s' \<Rightarrow>
                  Some (s'\<lparr>queue_running :=
                             remove1 t (queue_running s) @ [AwaitFinalDelay prefix]\<rparr>)
              | Inl e \<Rightarrow> Some (s\<lparr>queue_running := remove1 t (queue_running s)\<rparr>))
         | _ \<Rightarrow> None)
      else None)"
| "step Tick s = Some (monitorBacklog s)"
| "step Interval s = Some (s\<lparr>queue_intervalCount := 0\<rparr>)"
| "step Idle s =
     (if queue_waiting s = [] \<and> queue_running s = [] \<and> \<not> idle_resolved s
      then Some (saveProgress (saveProgress (s\<lparr>idle_resolved := True\<rparr>)))
      else None)"

fun run :: "event list \<Rightarrow> state \<Rightarrow> state option" where
  "run [] s = Some s"
| "run (e # es) s = (case step e s of None \<Rightarrow> None | Some s' \<Rightarrow> run es s')"

text \<open>
  An example of a server and of a run. The server knows 14 names for every prefix, the
  prefix followed by one to 14 underscores; the first request for the last element of the
  alphabet, \<open>%20\<close>, fails with a connection error. \<open>extractAllNames\<close> adds the forty first
  prefixes, of which the queue starts 26. The responses to these come in the order of the
  requests; each of the first 14 raises the concurrency by one, so that the queue starts
  one more task before \<open>processPrefix\<close> goes on. Then come the responses for 13 of the
  other prefixes, each followed by the end of the last delay of an older task, and the
  failure for \<open>%20\<close>. The last delays of the other tasks end, the request for \<open>%20\<close> is
  sent again and answered, its task ends, and the queue is idle.
\<close>

definition names_of :: "string \<Rightarrow> string list" where
  "names_of prefix = map (\<lambda>k. prefix @ replicate (Suc k) (CHR ''_'')) [0..<14]"

definition respond :: "string \<Rightarrow> event" where
  "respond prefix =
     Settle (AwaitResponse prefix 1) (Response2xx (Body (Items (names_of prefix))))"

definition resume :: "string \<Rightarrow> event" where
  "resume prefix = Resume (AwaitResume prefix (Array (names_of prefix)))"

definition finish :: "string \<Rightarrow> event" where
  "finish prefix = Wake (AwaitFinalDelay prefix)"

definition example_run :: "event list" where
  "example_run =
     replicate 26 Start
     @ concat (map (\<lambda>p. [respond p, Start, resume p]) (take 14 VALID_CHARACTERS))
     @ concat (map (\<lambda>p. [respond p, resume p]) (drop 14 (take 26 VALID_CHARACTERS)))
     @ concat (map (\<lambda>(b, p). [respond b, resume b, finish p])
         (zip (take 13 (drop 26 VALID_CHARACTERS)) (take 13 VALID_CHARACTERS)))
     @ [Settle (AwaitResponse ''%20'' 1) RequestError, finish ''d'']
     @ map finish (drop 14 (take 39 VALID_CHARACTERS))
     @ [Wake (AwaitDelay ''%20'' 2),
        Settle (AwaitResponse ''%20'' 2) (Response2xx (Body (Items (names_of ''%20'')))),
        resume ''%20'', finish ''%20'', Idle]"

section \<open>Invariants of a run\<close>

text \<open>
  The concurrency is in its bounds, and the queue has it.
\<close>

definition concurrency_inv :: "state \<Rightarrow> bool" where
  "concurrency_inv s \<longleftrightarrow>
     MIN_CONCURRENCY \<le> currentConcurrency s \<and> currentConcurrency s \<le> MAX_CONCURRENCY \<and>
     queue_concurrency s = currentConcurrency s"

text \<open>
  The contents written to the progress file grow with time, and none has more than the
  current state.
\<close>

definition snapshot_le :: "snapshot \<Rightarrow> snapshot \<Rightarrow> bool" where
  "snapshot_le a b \<longleftrightarrow>
     set (snap_names a) \<subseteq> set (snap_names b) \<and> snap_totalRequests a \<le> snap_totalRequests b"

definition snapshot_inv :: "state \<Rightarrow> bool" where
  "snapshot_inv s \<longleftrightarrow>
     sorted_wrt snapshot_le (written s) \<and>
     (\<forall>w \<in> set (written s).
        set (snap_names w) \<subseteq> set (discoveredNames s) \<and> snap_totalRequests w \<le> totalRequests s)"

text \<open>The prefixes of the requests with attempt number 1, in the order of the requests.\<close>

definition first_requests :: "state \<Rightarrow> string list" where
  "first_requests s = map fst (filter (\<lambda>r. snd r = 1) (requests s))"

text \<open>
  The first requests are for different prefixes, the visited ones. A running task that
  waits for a response is at attempt 1 or later, one that waits to retry goes to attempt
  2 or later.
\<close>

fun attempt_ok :: "task \<Rightarrow> bool" where
  "attempt_ok (AwaitResponse p a) = (1 \<le> a)"
| "attempt_ok (AwaitDelay p a) = (2 \<le> a)"
| "attempt_ok (AwaitResume p results) = True"
| "attempt_ok (AwaitFinalDelay p) = True"
| "attempt_ok (AwaitNext p) = True"

definition dispatch_inv :: "state \<Rightarrow> bool" where
  "dispatch_inv s \<longleftrightarrow>
     distinct (first_requests s) \<and> set (first_requests s) = visitedPrefixes s \<and>
     (\<forall>t \<in> set (queue_running s). attempt_ok t)"

text \<open>
  The prefix of a running task whose \<open>processPrefix\<close> has not yet gone on with the answer
  of \<open>queryAPI\<close>.
\<close>

fun unanswered :: "task \<Rightarrow> string list" where
  "unanswered (AwaitResponse p a) = [p]"
| "unanswered (AwaitDelay p a) = [p]"
| "unanswered (AwaitResume p results) = [p]"
| "unanswered (AwaitFinalDelay p) = []"
| "unanswered (AwaitNext p) = []"

definition pending :: "state \<Rightarrow> string list" where
  "pending s = concat (map unanswered (queue_running s))"

text \<open>The strings made of elements of the alphabet.\<close>

definition wellformed :: "string \<Rightarrow> bool" where
  "wellformed p \<longleftrightarrow> (\<exists>cs. set cs \<subseteq> set VALID_CHARACTERS \<and> p = concat cs)"

text \<open>
  The tree of prefixes, on the prefixes \<open>A\<close> given to \<open>queue.add\<close>, the answers \<open>ans\<close> of
  \<open>queryAPI\<close>, the visited prefixes \<open>V\<close>, the waiting prefixes \<open>W\<close> and the prefixes \<open>P\<close>
  of the running tasks that have no answer yet. Every added prefix is an element of the
  alphabet, or a prefix answered with 15 results followed by one; no prefix is added
  twice or answered twice; the answered prefixes and those of \<open>P\<close> are visited, the
  visited and the waiting ones have been added; the prefixes of \<open>P\<close> are different and
  not answered.
\<close>

definition expanded_in :: "(string \<times> string list) list \<Rightarrow> string \<Rightarrow> bool" where
  "expanded_in ans p \<longleftrightarrow>
     (\<exists>results. (p, results) \<in> set ans \<and> length results = MAX_RESULTS_PER_QUERY)"

definition tree_ok ::
  "string list \<Rightarrow> (string \<times> string list) list \<Rightarrow> string set \<Rightarrow> string list \<Rightarrow> string list \<Rightarrow> bool"
where
  "tree_ok A ans V W P \<longleftrightarrow>
     (\<forall>x \<in> set A.
        \<exists>p c. x = p @ c \<and> c \<in> set VALID_CHARACTERS \<and> wellformed p \<and> (p = [] \<or> expanded_in ans p)) \<and>
     distinct A \<and>
     distinct (map fst ans) \<and>
     fst ` set ans \<subseteq> V \<and>
     V \<subseteq> set A \<and>
     set W \<subseteq> set A \<and>
     distinct P \<and>
     set P \<subseteq> V \<and>
     set P \<inter> fst ` set ans = {}"

definition tree_inv :: "state \<Rightarrow> bool" where
  "tree_inv s \<longleftrightarrow>
     tree_ok (added s) (answers s) (visitedPrefixes s) (queue_waiting s) (pending s)"

text \<open>The prefixes the expansion loop adds for the results of a prefix.\<close>

definition children :: "string \<Rightarrow> string list \<Rightarrow> string set \<Rightarrow> string list" where
  "children p results V =
     (if length results = MAX_RESULTS_PER_QUERY
      then filter (\<lambda>x. x \<notin> V) (map ((@) p) VALID_CHARACTERS) else [])"


section \<open>Facts about the configuration and the helpers\<close>

lemma length_VALID_CHARACTERS: "length VALID_CHARACTERS = 40"
  by (simp add: VALID_CHARACTERS_def)

lemma distinct_VALID_CHARACTERS: "distinct VALID_CHARACTERS"
  by (simp add: VALID_CHARACTERS_def)

lemma decreased_eq: "decreased s = currentConcurrency s * 9 div 10"
proof -
  have "real_of_int (currentConcurrency s) * (9 / 10) =
        real_of_int (currentConcurrency s * 9) / real_of_int 10"
    by simp
  then show ?thesis
    unfolding decreased_def CONCURRENCY_ADJUSTMENT_DOWN_FACTOR_def
    by (simp only: floor_divide_of_int_eq)
qed

lemma totalRequests_loaded: "totalRequests loaded = 0"
  by (simp add: loaded_def)




section \<open>Facts about one call of queryAPI\<close>

lemma queryAPI_2xx:
  "net 0 = Response2xx (Body r) \<Longrightarrow>
   queryAPI p net a s =
     Some (results_or_empty r,
           adjustConcurrency (currentConcurrency s + CONCURRENCY_ADJUSTMENT_UP)
             (queryAPI_enter p a s))"
  by (subst queryAPI.simps) (simp add: queryAPI_settle_def queryAPI_enter_def)

lemma queryAPI_429:
  "net 0 = Response429 \<Longrightarrow>
   queryAPI p net a s =
     queryAPI p (\<lambda>i. net (Suc i)) (Suc a)
       (adjustConcurrency (decreased (queryAPI_enter p a s)) (queryAPI_enter p a s))"
  by (subst queryAPI.simps) (simp add: queryAPI_settle_def)

lemma queryAPI_error_retry:
  "net 0 = RequestError \<Longrightarrow> a \<le> 5 \<Longrightarrow>
   queryAPI p net a s = queryAPI p (\<lambda>i. net (Suc i)) (Suc a) (queryAPI_enter p a s)"
  by (subst queryAPI.simps) (simp add: queryAPI_settle_def)

lemma queryAPI_error_final:
  "net 0 = RequestError \<Longrightarrow> 5 < a \<Longrightarrow>
   queryAPI p net a s = Some (Array [], queryAPI_enter p a s)"
  by (subst queryAPI.simps) (simp add: queryAPI_settle_def)

lemma queryAPI_nobody_retry:
  "net 0 = Response2xx NoBody \<Longrightarrow> a \<le> 5 \<Longrightarrow>
   queryAPI p net a s =
     queryAPI p (\<lambda>i. net (Suc i)) (Suc a)
       (adjustConcurrency (currentConcurrency s + CONCURRENCY_ADJUSTMENT_UP)
          (queryAPI_enter p a s))"
  by (subst queryAPI.simps) (simp add: queryAPI_settle_def queryAPI_enter_def)

lemma queryAPI_nobody_final:
  "net 0 = Response2xx NoBody \<Longrightarrow> 5 < a \<Longrightarrow>
   queryAPI p net a s =
     Some (Array [],
           adjustConcurrency (currentConcurrency s + CONCURRENCY_ADJUSTMENT_UP)
             (queryAPI_enter p a s))"
  by (subst queryAPI.simps) (simp add: queryAPI_settle_def queryAPI_enter_def)

lemma totalRequests_adjustConcurrency [simp]:
  "totalRequests (adjustConcurrency n s) = totalRequests s"
  by (simp add: adjustConcurrency_def Let_def)

lemma totalRequests_queryAPI_enter [simp]:
  "totalRequests (queryAPI_enter p a s) = Suc (totalRequests s)"
  by (simp add: queryAPI_enter_def)



text \<open>
  The requests at which a call of \<open>queryAPI\<close> at attempt \<open>a\<close> can end: the one after \<open>i\<close>
  others gets a 2xx response with a body, or it fails otherwise than by status 429 (by
  an error, or on a 2xx response without a body) when the attempt number has passed 5.
\<close>

lemma queryAPI_Some_settled:
  "queryAPI p net a s = Some y \<Longrightarrow>
   \<exists>i. (\<exists>r. net i = Response2xx (Body r)) \<or>
       ((net i = RequestError \<or> net i = Response2xx NoBody) \<and> 5 < a + i)"
proof (induction arbitrary: y rule: queryAPI.raw_induct[rotated 1, consumes 1])
  case (1 f p net a s y)
  show ?case
  proof (cases "net 0")
    case (Response2xx b)
    show ?thesis
    proof (cases b)
      case (Body r)
      with Response2xx show ?thesis by blast
    next
      case NoBody
      show ?thesis
      proof (cases "a \<le> 5")
        case True
        with Response2xx NoBody 1(2)
        have "f p (\<lambda>i. net (Suc i)) (Suc a)
           (adjustConcurrency
              (currentConcurrency (queryAPI_enter p a s) + CONCURRENCY_ADJUSTMENT_UP)
              (queryAPI_enter p a s)) = Some y"
          by (simp add: queryAPI_settle_def)
        from 1(1)[OF this] show ?thesis by auto
      next
        case False
        with Response2xx NoBody
        have "(net 0 = RequestError \<or> net 0 = Response2xx NoBody) \<and> 5 < a + 0" by simp
        then show ?thesis by blast
      qed
    qed
  next
    case Response429
    with 1(2) have "f p (\<lambda>i. net (Suc i)) (Suc a)
       (adjustConcurrency (decreased (queryAPI_enter p a s)) (queryAPI_enter p a s)) = Some y"
      by (simp add: queryAPI_settle_def)
    from 1(1)[OF this] show ?thesis by auto
  next
    case RequestError
    show ?thesis
    proof (cases "a \<le> 5")
      case True
      with RequestError 1(2)
      have "f p (\<lambda>i. net (Suc i)) (Suc a) (queryAPI_enter p a s) = Some y"
        by (simp add: queryAPI_settle_def)
      from 1(1)[OF this] show ?thesis by auto
    next
      case False
      with RequestError
      have "(net 0 = RequestError \<or> net 0 = Response2xx NoBody) \<and> 5 < a + 0" by simp
      then show ?thesis by blast
    qed
  qed
qed

lemma queryAPI_settles:
  "(\<exists>r. net i = Response2xx (Body r)) \<or>
   ((net i = RequestError \<or> net i = Response2xx NoBody) \<and> 5 < a + i) \<Longrightarrow>
   \<exists>y. queryAPI p net a s = Some y"
proof (induction i arbitrary: net a s)
  case 0
  then show ?case
    using queryAPI_2xx [where net = net and p = p and a = a and s = s]
      queryAPI_error_final [where net = net and p = p and a = a and s = s]
      queryAPI_nobody_final [where net = net and p = p and a = a and s = s]
    by auto
next
  case (Suc i)
  show ?case
  proof (cases "net 0")
    case (Response2xx b)
    show ?thesis
    proof (cases b)
      case (Body r)
      with Response2xx show ?thesis
        using queryAPI_2xx [where net = net and p = p and a = a and s = s] by simp
    next
      case NoBody
      show ?thesis
      proof (cases "a \<le> 5")
        case True
        have "\<exists>y. queryAPI p (\<lambda>i. net (Suc i)) (Suc a)
            (adjustConcurrency (currentConcurrency s + CONCURRENCY_ADJUSTMENT_UP)
               (queryAPI_enter p a s)) = Some y"
          using Suc.prems by (intro Suc.IH) simp
        then show ?thesis
          using queryAPI_nobody_retry [where net = net and p = p and a = a and s = s]
            Response2xx NoBody True by simp
      next
        case False
        then show ?thesis
          using queryAPI_nobody_final [where net = net and p = p and a = a and s = s]
            Response2xx NoBody by simp
      qed
    qed
  next
    case Response429
    have "\<exists>y. queryAPI p (\<lambda>i. net (Suc i)) (Suc a)
        (adjustConcurrency (decreased (queryAPI_enter p a s)) (queryAPI_enter p a s)) = Some y"
      using Suc.prems by (intro Suc.IH) simp
    then show ?thesis
      using queryAPI_429 [where net = net and p = p and a = a and s = s] Response429 by simp
  next
    case RequestError
    show ?thesis
    proof (cases "a \<le> 5")
      case True
      have "\<exists>y. queryAPI p (\<lambda>i. net (Suc i)) (Suc a) (queryAPI_enter p a s) = Some y"
        using Suc.prems by (intro Suc.IH) simp
      then show ?thesis
        using queryAPI_error_retry [where net = net and p = p and a = a and s = s]
          RequestError True by simp
    next
      case False
      then show ?thesis
        using queryAPI_error_final [where net = net and p = p and a = a and s = s]
          RequestError by simp
    qed
  qed
qed

text \<open>
  A call of \<open>queryAPI\<close> resolves to a value that is not an array only on a 2xx response
  whose \<open>results\<close> is one.
\<close>

lemma queryAPI_NotArray_result:
  "queryAPI p net a s = Some y \<Longrightarrow> fst y = NotArray \<Longrightarrow>
   \<exists>i. net i = Response2xx (Body Other)"
proof (induction rule: queryAPI.raw_induct[rotated 1, consumes 1])
  case (1 f p net a s y)
  show ?case
  proof (cases "net 0")
    case (Response2xx b)
    show ?thesis
    proof (cases b)
      case (Body r)
      with Response2xx 1(2,3) have "results_or_empty r = NotArray"
        by (auto simp add: queryAPI_settle_def)
      then have "r = Other"
        by (cases r) (simp_all add: results_or_empty_def)
      with Response2xx Body show ?thesis by blast
    next
      case NoBody
      show ?thesis
      proof (cases "a \<le> 5")
        case True
        with Response2xx NoBody 1(2)
        have "f p (\<lambda>i. net (Suc i)) (Suc a)
           (adjustConcurrency
              (currentConcurrency (queryAPI_enter p a s) + CONCURRENCY_ADJUSTMENT_UP)
              (queryAPI_enter p a s)) = Some y"
          by (simp add: queryAPI_settle_def)
        from 1(1)[OF this 1(3)] show ?thesis by auto
      next
        case False
        with Response2xx NoBody 1(2,3) show ?thesis
          by (auto simp add: queryAPI_settle_def)
      qed
    qed
  next
    case Response429
    with 1(2) have "f p (\<lambda>i. net (Suc i)) (Suc a)
       (adjustConcurrency (decreased (queryAPI_enter p a s)) (queryAPI_enter p a s)) = Some y"
      by (simp add: queryAPI_settle_def)
    from 1(1)[OF this 1(3)] show ?thesis by auto
  next
    case RequestError
    show ?thesis
    proof (cases "a \<le> 5")
      case True
      with RequestError 1(2)
      have "f p (\<lambda>i. net (Suc i)) (Suc a) (queryAPI_enter p a s) = Some y"
        by (simp add: queryAPI_settle_def)
      from 1(1)[OF this 1(3)] show ?thesis by auto
    next
      case False
      with RequestError 1(2,3) show ?thesis
        by (auto simp add: queryAPI_settle_def)
    qed
  qed
qed

lemma queryAPI_NotArray:
  "queryAPI p net a s = Some (NotArray, s') \<Longrightarrow> \<exists>i. net i = Response2xx (Body Other)"
  using queryAPI_NotArray_result [of p net a s "(NotArray, s')"] by simp






lemma results_or_empty_simps [simp]:
  "results_or_empty Falsy = Array []"
  "results_or_empty (Items names) = Array names"
  "results_or_empty Other = NotArray"
  by (simp_all add: results_or_empty_def)

section \<open>C1: retries after HTTP 429\<close>




section \<open>C3: retries after other errors\<close>





section \<open>C7: the control law of the concurrency\<close>

text \<open>
  C7. A 2xx response, whatever its body, sets \<open>currentConcurrency\<close> to its value plus
  the additive step, a 429 response to the floor of its value times the factor, which is
  below 1, both brought into the bounds; another error leaves it alone. The monitor takes
  the number of running tasks plus the number of waiting tasks as the backlog, and applies
  the same decrease above the high threshold, the same increase below the low threshold
  when \<open>currentConcurrency\<close> is below the maximum, and nothing otherwise.
\<close>

theorem aimd_control_law:
  "currentConcurrency (snd (queryAPI_settle (Response2xx body) attempt s))
     = max MIN_CONCURRENCY (min MAX_CONCURRENCY (currentConcurrency s + CONCURRENCY_ADJUSTMENT_UP))
   \<and> currentConcurrency (snd (queryAPI_settle Response429 attempt s))
     = max MIN_CONCURRENCY (min MAX_CONCURRENCY
         \<lfloor>real_of_int (currentConcurrency s) * CONCURRENCY_ADJUSTMENT_DOWN_FACTOR\<rfloor>)
   \<and> currentConcurrency (snd (queryAPI_settle RequestError attempt s)) = currentConcurrency s
   \<and> 0 < CONCURRENCY_ADJUSTMENT_DOWN_FACTOR \<and> CONCURRENCY_ADJUSTMENT_DOWN_FACTOR < 1
   \<and> 0 < CONCURRENCY_ADJUSTMENT_UP
   \<and> currentConcurrency (monitorBacklog s)
     = (if int (length (queue_running s)) + int (length (queue_waiting s)) > BACKLOG_HIGH_THRESHOLD
        then max MIN_CONCURRENCY (min MAX_CONCURRENCY
               \<lfloor>real_of_int (currentConcurrency s) * CONCURRENCY_ADJUSTMENT_DOWN_FACTOR\<rfloor>)
        else if int (length (queue_running s)) + int (length (queue_waiting s)) < BACKLOG_LOW_THRESHOLD
                \<and> currentConcurrency s < MAX_CONCURRENCY
        then max MIN_CONCURRENCY (min MAX_CONCURRENCY (currentConcurrency s + CONCURRENCY_ADJUSTMENT_UP))
        else currentConcurrency s)"
  by (simp add: queryAPI_settle_def monitorBacklog_def adjustConcurrency_def decreased_def Let_def
      CONCURRENCY_ADJUSTMENT_DOWN_FACTOR_def CONCURRENCY_ADJUSTMENT_UP_def split: body.splits)

section \<open>C10: how a call of queryAPI ends\<close>

lemma queryAPI_settles_iff:
  "queryAPI p net a s \<noteq> None \<longleftrightarrow>
   (\<exists>i. (\<exists>r. net i = Response2xx (Body r)) \<or>
        ((net i = RequestError \<or> net i = Response2xx NoBody) \<and> 5 < a + i))"
proof
  assume "queryAPI p net a s \<noteq> None"
  then obtain y where "queryAPI p net a s = Some y" by blast
  then show "\<exists>i. (\<exists>r. net i = Response2xx (Body r)) \<or>
        ((net i = RequestError \<or> net i = Response2xx NoBody) \<and> 5 < a + i)"
    by (rule queryAPI_Some_settled)
next
  assume "\<exists>i. (\<exists>r. net i = Response2xx (Body r)) \<or>
        ((net i = RequestError \<or> net i = Response2xx NoBody) \<and> 5 < a + i)"
  then obtain i where "(\<exists>r. net i = Response2xx (Body r)) \<or>
        ((net i = RequestError \<or> net i = Response2xx NoBody) \<and> 5 < a + i)"
    by blast
  then show "queryAPI p net a s \<noteq> None"
    using queryAPI_settles [where net = net and i = i and a = a and p = p and s = s] by auto
qed

lemma processPrefix_settles_iff:
  "processPrefix p net s \<noteq> None \<longleftrightarrow>
   p \<in> visitedPrefixes s \<or>
   (\<exists>i. (\<exists>r. net i = Response2xx (Body r)) \<or>
        ((net i = RequestError \<or> net i = Response2xx NoBody) \<and> 5 < 1 + i))"
  using queryAPI_settles_iff [of p net 1 "s\<lparr>visitedPrefixes := insert p (visitedPrefixes s)\<rparr>"]
  by (auto simp add: processPrefix_def split: option.splits)

lemma queryAPI_array:
  assumes "\<forall>i. net i \<noteq> Response2xx (Body Other)"
  shows "map_option fst (queryAPI p net a s) \<noteq> Some NotArray"
proof
  assume "map_option fst (queryAPI p net a s) = Some NotArray"
  then obtain s' where "queryAPI p net a s = Some (NotArray, s')"
    by auto
  from queryAPI_NotArray [OF this] assms show False by blast
qed

lemma processPrefix_TypeError:
  assumes "processPrefix p net s = Some (Inl e)"
  shows "\<exists>i. net i = Response2xx (Body Other)"
proof -
  from assms obtain v s' where
    q: "queryAPI p net 1 (s\<lparr>visitedPrefixes := insert p (visitedPrefixes s)\<rparr>) = Some (v, s')"
    and c: "processPrefix_continue p v s' = Inl e"
    by (auto simp add: processPrefix_def split: if_splits option.splits)
  from c have "v = NotArray"
    by (cases v) (simp_all add: processPrefix_continue_def)
  with q show ?thesis by (auto dest: queryAPI_NotArray)
qed

lemma visitedPrefixes_loaded: "visitedPrefixes loaded = {}"
  by (simp add: loaded_def)

lemma currentConcurrency_adjustConcurrency:
  "currentConcurrency (adjustConcurrency n s) = max MIN_CONCURRENCY (min MAX_CONCURRENCY n)"
  by (simp add: adjustConcurrency_def Let_def)

text \<open>
  When every HTTP call is answered with status 429, \<open>queryAPI\<close> calls itself for ever:
  neither it nor \<open>processPrefix\<close> ever settles. On a 2xx response whose \<open>results\<close> is a
  truthy value that is no array, \<open>queryAPI\<close> resolves to that value, and \<open>processPrefix\<close>
  rejects with the TypeError of line 153. On a 2xx response without a body \<open>queryAPI\<close>
  does not resolve: it raises the concurrency and issues a second request, as it does
  after a connection error.
\<close>

theorem sustained_429_never_settles_counterexample:
  "queryAPI ''a'' (scripted [] Response429) 1 loaded = None
   \<and> processPrefix ''a'' (scripted [] Response429) loaded = None
   \<and> map_option fst (queryAPI ''a'' (scripted [] (Response2xx (Body Other))) 1 loaded)
       = Some NotArray
   \<and> processPrefix ''a'' (scripted [] (Response2xx (Body Other))) loaded = Some (Inl TypeError)
   \<and> map_option fst
       (queryAPI ''a'' (scripted [Response2xx NoBody] (Response2xx (Body (Items [''ann''])))) 1
          loaded) = Some (Array [''ann''])
   \<and> map_option (totalRequests \<circ> snd)
       (queryAPI ''a'' (scripted [Response2xx NoBody] (Response2xx (Body (Items [''ann''])))) 1
          loaded) = Some 2
   \<and> map_option (currentConcurrency \<circ> snd)
       (queryAPI ''a'' (scripted [Response2xx NoBody] (Response2xx (Body (Items [''ann''])))) 1
          loaded) = Some 28"
proof -
  let ?net = "scripted [] Response429"
  have always: "?net i = Response429" for i
    by (simp add: scripted_def)
  have 1: "queryAPI ''a'' ?net 1 loaded = None"
  proof (rule ccontr)
    assume "queryAPI ''a'' ?net 1 loaded \<noteq> None"
    then obtain i where "(\<exists>r. ?net i = Response2xx (Body r)) \<or>
        ((?net i = RequestError \<or> ?net i = Response2xx NoBody) \<and> 5 < 1 + i)"
      using queryAPI_settles_iff [of "''a''" ?net 1 loaded] by blast
    then show False by (simp add: always)
  qed
  have 2: "processPrefix ''a'' ?net loaded = None"
  proof (rule ccontr)
    assume "processPrefix ''a'' ?net loaded \<noteq> None"
    then obtain i where "(\<exists>r. ?net i = Response2xx (Body r)) \<or>
        ((?net i = RequestError \<or> ?net i = Response2xx NoBody) \<and> 5 < 1 + i)"
      using processPrefix_settles_iff [of "''a''" ?net loaded]
      by (auto simp add: visitedPrefixes_loaded)
    then show False by (simp add: always)
  qed
  let ?other = "scripted [] (Response2xx (Body Other))"
  have other: "?other 0 = Response2xx (Body Other)"
    by (simp add: scripted_def)
  have 3: "map_option fst (queryAPI ''a'' ?other 1 loaded) = Some NotArray"
    using queryAPI_2xx [where net = ?other and r = Other and p = "''a''" and a = 1 and s = loaded]
      other by simp
  have 4: "processPrefix ''a'' ?other loaded = Some (Inl TypeError)"
    using queryAPI_2xx [where net = ?other and r = Other and p = "''a''" and a = 1
        and s = "loaded\<lparr>visitedPrefixes := insert ''a'' (visitedPrefixes loaded)\<rparr>"]
      other
    by (simp add: processPrefix_def visitedPrefixes_loaded processPrefix_continue_def)
  let ?null = "scripted [Response2xx NoBody] (Response2xx (Body (Items [''ann''])))"
  let ?s1 = "adjustConcurrency (currentConcurrency loaded + CONCURRENCY_ADJUSTMENT_UP)
               (queryAPI_enter ''a'' 1 loaded)"
  have null: "?null 0 = Response2xx NoBody"
    and ann: "(\<lambda>i. ?null (Suc i)) 0 = Response2xx (Body (Items [''ann'']))"
    by (simp_all add: scripted_def)
  have "queryAPI ''a'' ?null 1 loaded = queryAPI ''a'' (\<lambda>i. ?null (Suc i)) (Suc 1) ?s1"
    using null by (intro queryAPI_nobody_retry) simp_all
  also have "\<dots> = Some (Array [''ann''],
      adjustConcurrency (currentConcurrency ?s1 + CONCURRENCY_ADJUSTMENT_UP)
        (queryAPI_enter ''a'' (Suc 1) ?s1))"
    using queryAPI_2xx [where net = "\<lambda>i. ?null (Suc i)" and r = "Items [''ann'']"
        and p = "''a''" and a = "Suc 1" and s = ?s1] ann
    by simp
  finally have 5: "queryAPI ''a'' ?null 1 loaded = Some (Array [''ann''],
      adjustConcurrency (currentConcurrency ?s1 + CONCURRENCY_ADJUSTMENT_UP)
        (queryAPI_enter ''a'' (Suc 1) ?s1))" .
  have 6: "currentConcurrency
      (adjustConcurrency (currentConcurrency ?s1 + CONCURRENCY_ADJUSTMENT_UP)
        (queryAPI_enter ''a'' (Suc 1) ?s1)) = 28"
    by (simp add: currentConcurrency_adjustConcurrency loaded_def
        CONCURRENCY_ADJUSTMENT_UP_def MIN_CONCURRENCY_def MAX_CONCURRENCY_def)
  have 7: "totalRequests
      (adjustConcurrency (currentConcurrency ?s1 + CONCURRENCY_ADJUSTMENT_UP)
        (queryAPI_enter ''a'' (Suc 1) ?s1)) = 2"
    by (simp add: totalRequests_loaded)
  show ?thesis
    by (simp only: 1 2 3 4 5 6 7 option.map_sel option.simps fst_conv snd_conv comp_apply
        simp_thms)
qed

text \<open>
  C10, as amended. \<open>queryAPI\<close> never rejects. It settles exactly when some HTTP call gets
  a 2xx response with a body, or fails otherwise than by status 429 (by an error, or on a
  2xx response without a body, which is handled as an error after the concurrency has
  been raised) once the attempt number has passed 5. It then resolves to the results of
  that response, to the empty array when there are none, and to the empty array when the
  retries are used up. When no 2xx response has a \<open>results\<close> that is a truthy value and no
  array, \<open>queryAPI\<close> resolves to nothing but an array, and \<open>processPrefix\<close> does not
  reject. \<open>processPrefix\<close> gets to its last delay or rejects exactly when the prefix has
  been visited before or its call of \<open>queryAPI\<close> settles.
\<close>

theorem queryAPI_never_rejects:
  "(queryAPI prefix net attempt s \<noteq> None \<longleftrightarrow>
      (\<exists>i. (\<exists>r. net i = Response2xx (Body r)) \<or>
           ((net i = RequestError \<or> net i = Response2xx NoBody) \<and> 5 < attempt + i)))
   \<and> (net' 0 = Response2xx (Body r') \<longrightarrow>
        map_option fst (queryAPI prefix net' attempt s) = Some (results_or_empty r'))
   \<and> results_or_empty (Items names) = Array names \<and> results_or_empty Falsy = Array []
   \<and> results_or_empty Other = NotArray
   \<and> ((net'' 0 = RequestError \<or> net'' 0 = Response2xx NoBody) \<and> 5 < attempt' \<longrightarrow>
        map_option fst (queryAPI prefix net'' attempt' s) = Some (Array []))
   \<and> (net'' 0 = Response2xx NoBody \<and> attempt \<le> 5 \<longrightarrow>
        queryAPI prefix net'' attempt s =
          queryAPI prefix (\<lambda>i. net'' (Suc i)) (attempt + 1)
            (adjustConcurrency (currentConcurrency s + CONCURRENCY_ADJUSTMENT_UP)
               (queryAPI_enter prefix attempt s)))
   \<and> ((\<forall>i. net i \<noteq> Response2xx (Body Other)) \<longrightarrow>
        map_option fst (queryAPI prefix net attempt s) \<noteq> Some NotArray
        \<and> processPrefix prefix net s \<noteq> Some (Inl TypeError))
   \<and> (processPrefix prefix net s \<noteq> None \<longleftrightarrow>
        prefix \<in> visitedPrefixes s \<or>
        (\<exists>i. (\<exists>r. net i = Response2xx (Body r)) \<or>
             ((net i = RequestError \<or> net i = Response2xx NoBody) \<and> 5 < 1 + i)))"
proof -
  have "map_option fst (queryAPI prefix net' attempt s) = Some (results_or_empty r')"
    if "net' 0 = Response2xx (Body r')"
    using queryAPI_2xx [where net = net' and r = r' and p = prefix and a = attempt and s = s] that
    by simp
  moreover have "map_option fst (queryAPI prefix net'' attempt' s) = Some (Array [])"
    if "(net'' 0 = RequestError \<or> net'' 0 = Response2xx NoBody) \<and> 5 < attempt'"
    using queryAPI_error_final [where net = net'' and p = prefix and a = attempt' and s = s]
      queryAPI_nobody_final [where net = net'' and p = prefix and a = attempt' and s = s] that
    by auto
  moreover have "queryAPI prefix net'' attempt s =
          queryAPI prefix (\<lambda>i. net'' (Suc i)) (attempt + 1)
            (adjustConcurrency (currentConcurrency s + CONCURRENCY_ADJUSTMENT_UP)
               (queryAPI_enter prefix attempt s))"
    if "net'' 0 = Response2xx NoBody \<and> attempt \<le> 5"
    using queryAPI_nobody_retry [where net = net'' and p = prefix and a = attempt and s = s] that
    by simp
  moreover have "map_option fst (queryAPI prefix net attempt s) \<noteq> Some NotArray
        \<and> processPrefix prefix net s \<noteq> Some (Inl TypeError)"
    if "\<forall>i. net i \<noteq> Response2xx (Body Other)"
    using queryAPI_array [OF that, of prefix attempt s]
      processPrefix_TypeError [of prefix net s TypeError] that
    by blast
  ultimately show ?thesis
    using queryAPI_settles_iff [of prefix net attempt s]
      processPrefix_settles_iff [of prefix net s]
    by (simp del: map_option_eq_Some)
qed

theorem queryAPI_never_rejects_witness:
  "scripted [Response429, Response2xx NoBody] (Response2xx (Body (Items [''ann''])))  2
     = Response2xx (Body (Items [''ann'']))
   \<and> queryAPI ''a''
       (scripted [Response429, Response2xx NoBody] (Response2xx (Body (Items [''ann''])))) 1
       loaded \<noteq> None
   \<and> (\<forall>i. scripted [Response429, Response2xx NoBody] (Response2xx (Body (Items [''ann'']))) i
           \<noteq> Response2xx (Body Other))
   \<and> map_option fst (queryAPI ''a''
       (scripted [Response429, Response2xx NoBody] (Response2xx (Body (Items [''ann''])))) 1
       loaded) \<noteq> Some NotArray
   \<and> processPrefix ''a''
       (scripted [Response429, Response2xx NoBody] (Response2xx (Body (Items [''ann'']))))
       loaded \<noteq> Some (Inl TypeError)
   \<and> processPrefix ''a''
       (scripted [Response429, Response2xx NoBody] (Response2xx (Body (Items [''ann'']))))
       loaded \<noteq> None
   \<and> scripted [] (Response2xx (Body Falsy)) 0 = Response2xx (Body Falsy)
   \<and> map_option fst (queryAPI ''a'' (scripted [] (Response2xx (Body Falsy))) 1 loaded)
       = Some (Array [])
   \<and> scripted [] (Response2xx NoBody) 0 = Response2xx NoBody
   \<and> map_option fst (queryAPI ''a'' (scripted [] (Response2xx NoBody)) 6 loaded)
       = Some (Array [])
   \<and> queryAPI ''a'' (scripted [] (Response2xx NoBody)) 1 loaded
       = queryAPI ''a'' (\<lambda>i. scripted [] (Response2xx NoBody) (Suc i)) (1 + 1)
           (adjustConcurrency (currentConcurrency loaded + CONCURRENCY_ADJUSTMENT_UP)
              (queryAPI_enter ''a'' 1 loaded))"
proof -
  let ?net = "scripted [Response429, Response2xx NoBody] (Response2xx (Body (Items [''ann''])))"
  have at2: "?net 2 = Response2xx (Body (Items [''ann'']))"
    by (simp add: scripted_def)
  then have settles: "\<exists>i. (\<exists>r. ?net i = Response2xx (Body r)) \<or>
      ((?net i = RequestError \<or> ?net i = Response2xx NoBody) \<and> 5 < 1 + i)"
    by blast
  have arrays: "\<forall>i. ?net i \<noteq> Response2xx (Body Other)"
    by (simp add: scripted_def nth_Cons split: nat.splits)
  have falsy: "scripted [] (Response2xx (Body Falsy)) 0 = Response2xx (Body Falsy)"
    and nobody: "scripted [] (Response2xx NoBody) 0 = Response2xx NoBody"
    by (simp_all add: scripted_def)
  from queryAPI_never_rejects [where prefix = "''a''" and net = ?net and attempt = 1
      and s = loaded and net' = "scripted [] (Response2xx (Body Falsy))" and r' = Falsy
      and net'' = "scripted [] (Response2xx NoBody)" and attempt' = 6]
    settles arrays falsy nobody
  have "queryAPI ''a'' ?net 1 loaded \<noteq> None"
    and "map_option fst (queryAPI ''a'' ?net 1 loaded) \<noteq> Some NotArray"
    and "processPrefix ''a'' ?net loaded \<noteq> Some (Inl TypeError)"
    and "processPrefix ''a'' ?net loaded \<noteq> None"
    and "map_option fst (queryAPI ''a'' (scripted [] (Response2xx (Body Falsy))) 1 loaded)
           = Some (Array [])"
    and "map_option fst (queryAPI ''a'' (scripted [] (Response2xx NoBody)) 6 loaded)
           = Some (Array [])"
    and "queryAPI ''a'' (scripted [] (Response2xx NoBody)) 1 loaded
       = queryAPI ''a'' (\<lambda>i. scripted [] (Response2xx NoBody) (Suc i)) (1 + 1)
           (adjustConcurrency (currentConcurrency loaded + CONCURRENCY_ADJUSTMENT_UP)
              (queryAPI_enter ''a'' 1 loaded))"
    by (simp_all del: map_option_eq_Some)
  with at2 arrays falsy nobody show ?thesis
    by (simp only: simp_thms)
qed

section \<open>Facts about the expansion loop\<close>

lemma expand_eq:
  "expand prefix chars s =
     s\<lparr>queue_waiting := queue_waiting s @
          filter (\<lambda>p. p \<notin> visitedPrefixes s) (map ((@) prefix) chars),
       added := added s @
          filter (\<lambda>p. p \<notin> visitedPrefixes s) (map ((@) prefix) chars)\<rparr>"
proof (induction chars arbitrary: s)
  case Nil
  show ?case by simp
next
  case (Cons char chars)
  show ?case
    by (simp add: Cons.IH queue_add_def)
qed

lemma maybeSaveProgress_queue:
  "queue_waiting (maybeSaveProgress s) = queue_waiting s"
  "added (maybeSaveProgress s) = added s"
  "visitedPrefixes (maybeSaveProgress s) = visitedPrefixes s"
  by (simp_all add: maybeSaveProgress_def saveProgress_def)


lemma processPrefix_resume_leaf:
  assumes "length results \<noteq> MAX_RESULTS_PER_QUERY"
  shows "queue_waiting (processPrefix_resume prefix results s) = queue_waiting s"
    and "added (processPrefix_resume prefix results s) = added s"
    and "visitedPrefixes (processPrefix_resume prefix results s) = visitedPrefixes s"
  using assms
  by (simp_all add: processPrefix_resume_def Let_def maybeSaveProgress_queue)


section \<open>C4: expansion\<close>



section \<open>Facts about runs\<close>

lemma run_invariant:
  assumes "run es s0 = Some s" and "I s0"
    and "\<And>e s s'. I s \<Longrightarrow> step e s = Some s' \<Longrightarrow> I s'"
  shows "I s"
  using assms(1,2)
proof (induction es arbitrary: s0)
  case Nil
  then show ?case by simp
next
  case (Cons e es)
  from Cons.prems(1) obtain s1 where s1: "step e s0 = Some s1" and rest: "run es s1 = Some s"
    by (auto split: option.splits)
  from assms(3) [OF Cons.prems(2) s1] have "I s1" .
  with rest show ?case by (rule Cons.IH)
qed

lemma init_eq:
  "init = loaded\<lparr>queue_waiting := VALID_CHARACTERS, added := VALID_CHARACTERS\<rparr>"
proof -
  have "foldl (\<lambda>s char. queue_add char s) s cs =
        s\<lparr>queue_waiting := queue_waiting s @ cs, added := added s @ cs\<rparr>" for s cs
    by (induction cs arbitrary: s) (simp_all add: queue_add_def)
  then show ?thesis by (simp add: init_def loaded_def)
qed

subsection \<open>The bounds of the concurrency\<close>

lemma concurrency_inv_adjustConcurrency: "concurrency_inv (adjustConcurrency n s)"
  by (simp add: concurrency_inv_def adjustConcurrency_def Let_def
      MIN_CONCURRENCY_def MAX_CONCURRENCY_def)

lemma concurrency_inv_init: "concurrency_inv init"
  by (simp add: init_eq loaded_def concurrency_inv_def MIN_CONCURRENCY_def MAX_CONCURRENCY_def)

subsection \<open>Lists of running tasks\<close>

lemma set_concat_remove1:
  "set (concat (map f (remove1 t ts))) \<subseteq> set (concat (map f ts))"
  using set_remove1_subset [of t ts] by auto

lemma distinct_concat_remove1:
  "distinct (concat (map f ts)) \<Longrightarrow> distinct (concat (map f (remove1 t ts)))"
proof (induction ts)
  case Nil
  then show ?case by simp
next
  case (Cons a ts)
  show ?case
  proof (cases "a = t")
    case True
    with Cons.prems show ?thesis by simp
  next
    case False
    have "set (concat (map f (remove1 t ts))) \<subseteq> set (concat (map f ts))"
      by (rule set_concat_remove1)
    with False Cons show ?thesis by auto
  qed
qed

lemma concat_remove1_empty:
  "f t = [] \<Longrightarrow> concat (map f (remove1 t ts)) = concat (map f ts)"
  by (induction ts) auto

lemma set_concat_remove1_single:
  assumes "t \<in> set ts" and "distinct (concat (map f ts))" and "f t = [p]"
  shows "set (concat (map f (remove1 t ts))) = set (concat (map f ts)) - {p}"
  using assms
proof (induction ts)
  case Nil
  then show ?case by simp
next
  case (Cons a ts)
  show ?case
  proof (cases "a = t")
    case True
    with Cons.prems show ?thesis by auto
  next
    case False
    with Cons.prems have t: "t \<in> set ts" and d: "distinct (concat (map f ts))"
      by simp_all
    from t Cons.prems(3) have "p \<in> set (concat (map f ts))" by force
    with Cons.prems(2) have "p \<notin> set (f a)" by auto
    with False Cons.IH [OF t d Cons.prems(3)] show ?thesis by auto
  qed
qed

lemma in_concat_unanswered:
  "t \<in> set R \<Longrightarrow> unanswered t = [p] \<Longrightarrow> p \<in> set (concat (map unanswered R))"
  by force

subsection \<open>Strings made of elements of the alphabet\<close>

lemma VALID_CHARACTERS_cases:
  "c \<in> set VALID_CHARACTERS \<Longrightarrow>
   c = ''%20'' \<or> (\<exists>ch. c = [ch] \<and> ch \<noteq> CHR ''%'')"
  by (auto simp add: VALID_CHARACTERS_def)

lemma wellformed_Nil: "wellformed []"
  unfolding wellformed_def by (intro exI [of _ "[]"]) simp

lemma wellformed_snoc:
  assumes "wellformed p" and "c \<in> set VALID_CHARACTERS"
  shows "wellformed (p @ c)"
proof -
  from assms(1) obtain cs where "set cs \<subseteq> set VALID_CHARACTERS" and "p = concat cs"
    unfolding wellformed_def by blast
  with assms(2) have "set (cs @ [c]) \<subseteq> set VALID_CHARACTERS \<and> p @ c = concat (cs @ [c])"
    by simp
  then show ?thesis unfolding wellformed_def by blast
qed

lemma wellformed_cases:
  assumes "wellformed x"
  shows "x = [] \<or> (\<exists>p c. x = p @ c \<and> wellformed p \<and> c \<in> set VALID_CHARACTERS)"
proof -
  from assms obtain cs where cs: "set cs \<subseteq> set VALID_CHARACTERS" "x = concat cs"
    unfolding wellformed_def by blast
  show ?thesis
  proof (cases cs rule: rev_cases)
    case Nil
    with cs show ?thesis by simp
  next
    case (snoc ds c)
    with cs have "set ds \<subseteq> set VALID_CHARACTERS" and "c \<in> set VALID_CHARACTERS"
      and "x = concat ds @ c"
      by auto
    then show ?thesis unfolding wellformed_def by blast
  qed
qed

lemma wellformed_last:
  assumes "wellformed x" and "x \<noteq> []"
  shows "last x \<noteq> CHR ''%''"
proof -
  from wellformed_cases [OF assms(1)] assms(2)
  obtain p c where x: "x = p @ c" and c: "c \<in> set VALID_CHARACTERS"
    by blast
  from VALID_CHARACTERS_cases [OF c] show ?thesis
    using x by auto
qed

lemma not_wellformed_percent_two: "\<not> wellformed (q @ ''%2'')"
proof
  assume wf: "wellformed (q @ ''%2'')"
  from wellformed_cases [OF wf]
  obtain p c where eq: "q @ ''%2'' = p @ c" and p: "wellformed p" and c: "c \<in> set VALID_CHARACTERS"
    by auto
  from VALID_CHARACTERS_cases [OF c] show False
  proof
    assume "c = ''%20''"
    with eq have "last (q @ ''%2'') = last (p @ ''%20'')" by simp
    then show False by simp
  next
    assume "\<exists>ch. c = [ch] \<and> ch \<noteq> CHR ''%''"
    then obtain ch where ch: "c = [ch]" by blast
    with eq have "(q @ ''%'') @ ''2'' = p @ [ch]" by simp
    then have "p = q @ ''%''" by (simp only: append1_eq_conv)
    with wellformed_last [OF p] show False by simp
  qed
qed

lemma child_unique:
  assumes "p @ c = p' @ c'" and "wellformed p" and "wellformed p'"
    and "c \<in> set VALID_CHARACTERS" and "c' \<in> set VALID_CHARACTERS"
  shows "p = p' \<and> c = c'"
proof -
  from VALID_CHARACTERS_cases [OF assms(4)] VALID_CHARACTERS_cases [OF assms(5)]
  consider "c = ''%20''" "c' = ''%20''"
    | ch ch' where "c = [ch]" "c' = [ch']"
    | ch' where "c = ''%20''" "c' = [ch']"
    | ch where "c = [ch]" "c' = ''%20''"
    by blast
  then show ?thesis
  proof cases
    case 1
    with assms(1) show ?thesis by simp
  next
    case 2
    with assms(1) show ?thesis by simp
  next
    case 3
    with assms(1) have "(p @ ''%2'') @ ''0'' = p' @ [ch']" by simp
    then have "p' = p @ ''%2''" by (simp only: append1_eq_conv)
    with assms(3) not_wellformed_percent_two show ?thesis by simp
  next
    case 4
    with assms(1) have "(p' @ ''%2'') @ ''0'' = p @ [ch]" by simp
    then have "p = p' @ ''%2''" by (simp only: append1_eq_conv)
    with assms(2) not_wellformed_percent_two show ?thesis by simp
  qed
qed

subsection \<open>The tree of prefixes\<close>

lemma VALID_CHARACTERS_nonempty: "c \<in> set VALID_CHARACTERS \<Longrightarrow> c \<noteq> []"
  using VALID_CHARACTERS_cases by auto

lemma expanded_in_append: "expanded_in ans p \<Longrightarrow> expanded_in (ans @ ans') p"
  by (auto simp add: expanded_in_def)

lemma expanded_in_answered: "expanded_in ans p \<Longrightarrow> p \<in> fst ` set ans"
  by (force simp add: expanded_in_def)

lemma tree_ok_parts:
  assumes "tree_ok A ans V W P"
  shows "distinct A" and "distinct (map fst ans)" and "fst ` set ans \<subseteq> V" and "V \<subseteq> set A"
    and "set W \<subseteq> set A" and "distinct P" and "set P \<subseteq> V" and "set P \<inter> fst ` set ans = {}"
  using assms unfolding tree_ok_def by simp_all

lemma tree_ok_parents:
  assumes "tree_ok A ans V W P" and "x \<in> set A"
  shows "\<exists>p c. x = p @ c \<and> c \<in> set VALID_CHARACTERS \<and> wellformed p \<and> (p = [] \<or> expanded_in ans p)"
  using assms unfolding tree_ok_def by blast

lemma tree_okI:
  assumes "\<And>x. x \<in> set A \<Longrightarrow>
      \<exists>p c. x = p @ c \<and> c \<in> set VALID_CHARACTERS \<and> wellformed p \<and> (p = [] \<or> expanded_in ans p)"
    and "distinct A" and "distinct (map fst ans)" and "fst ` set ans \<subseteq> V" and "V \<subseteq> set A"
    and "set W \<subseteq> set A" and "distinct P" and "set P \<subseteq> V" and "set P \<inter> fst ` set ans = {}"
  shows "tree_ok A ans V W P"
  using assms unfolding tree_ok_def by blast

lemma tree_ok_wellformed:
  assumes "tree_ok A ans V W P" and "x \<in> set A"
  shows "wellformed x \<and> x \<noteq> []"
proof -
  from tree_ok_parents [OF assms]
  obtain p c where "x = p @ c" "c \<in> set VALID_CHARACTERS" "wellformed p"
    by blast
  then show ?thesis
    using wellformed_snoc [of p c] VALID_CHARACTERS_nonempty [of c] by simp
qed

lemma tree_ok_child:
  assumes ok: "tree_ok A ans V W P" and p: "p \<in> V" and c: "c \<in> set VALID_CHARACTERS"
    and child: "p @ c \<in> set A"
  shows "expanded_in ans p"
proof -
  from tree_ok_parents [OF ok child]
  obtain p0 c0 where eq: "p @ c = p0 @ c0" and c0: "c0 \<in> set VALID_CHARACTERS"
    and p0: "wellformed p0" and parent: "p0 = [] \<or> expanded_in ans p0"
    by blast
  from tree_ok_parts(4) [OF ok] p have "p \<in> set A" by blast
  from tree_ok_wellformed [OF ok this] have wf: "wellformed p" and ne: "p \<noteq> []"
    by simp_all
  from child_unique [OF eq wf p0 c c0] have "p = p0" by simp
  with ne parent show ?thesis by simp
qed

lemma tree_ok_leaf:
  assumes ok: "tree_ok A ans V W P" and p: "(p, results) \<in> set ans"
    and leaf: "length results \<noteq> MAX_RESULTS_PER_QUERY" and c: "c \<in> set VALID_CHARACTERS"
  shows "p @ c \<notin> set A"
proof
  assume child: "p @ c \<in> set A"
  from p have "p \<in> fst ` set ans" by force
  with tree_ok_parts(3) [OF ok] have "p \<in> V" by blast
  from tree_ok_child [OF ok this c child]
  obtain results' where "(p, results') \<in> set ans" and full: "length results' = MAX_RESULTS_PER_QUERY"
    unfolding expanded_in_def by blast
  moreover note tree_ok_parts(2) [OF ok]
  ultimately have "results' = results"
    using p eq_key_imp_eq_value [of ans p results' results] by simp
  with leaf full show False by simp
qed

lemma tree_ok_start_skip:
  assumes ok: "tree_ok A ans V (p # W) P"
  shows "tree_ok A ans V W P"
proof (rule tree_okI)
  note parts = tree_ok_parts [OF ok]
  show "set W \<subseteq> set A" using parts(5) by simp
  show "distinct A" "distinct (map fst ans)" "fst ` set ans \<subseteq> V" "V \<subseteq> set A"
    "distinct P" "set P \<subseteq> V" "set P \<inter> fst ` set ans = {}"
    by (fact parts)+
  show "\<exists>q c. x = q @ c \<and> c \<in> set VALID_CHARACTERS \<and> wellformed q \<and>
                 (q = [] \<or> expanded_in ans q)" if "x \<in> set A" for x
    using that by (rule tree_ok_parents [OF ok])
qed

lemma tree_ok_start:
  assumes ok: "tree_ok A ans V (p # W) P" and new: "p \<notin> V"
  shows "tree_ok A ans (insert p V) W (P @ [p])"
proof (rule tree_okI)
  note parts = tree_ok_parts [OF ok]
  show "distinct A" "distinct (map fst ans)" by (fact parts)+
  show "fst ` set ans \<subseteq> insert p V" using parts(3) by blast
  show "insert p V \<subseteq> set A" using parts(4,5) by simp
  show "set W \<subseteq> set A" using parts(5) by simp
  show "distinct (P @ [p])" using parts(6,7) new by auto
  show "set (P @ [p]) \<subseteq> insert p V" using parts(7) by auto
  show "set (P @ [p]) \<inter> fst ` set ans = {}" using parts(3,8) new by auto
  show "\<exists>q c. x = q @ c \<and> c \<in> set VALID_CHARACTERS \<and> wellformed q \<and>
                 (q = [] \<or> expanded_in ans q)" if "x \<in> set A" for x
    using that by (rule tree_ok_parents [OF ok])
qed

lemma tree_ok_pending:
  assumes ok: "tree_ok A ans V W P" and "distinct P'" and "set P' \<subseteq> set P"
  shows "tree_ok A ans V W P'"
proof (rule tree_okI)
  note parts = tree_ok_parts [OF ok]
  show "distinct A" "distinct (map fst ans)" "fst ` set ans \<subseteq> V" "V \<subseteq> set A"
    "set W \<subseteq> set A"
    by (fact parts)+
  show "distinct P'" by fact
  show "set P' \<subseteq> V" using parts(7) assms(3) by blast
  show "set P' \<inter> fst ` set ans = {}" using parts(8) assms(3) by blast
  show "\<exists>q c. x = q @ c \<and> c \<in> set VALID_CHARACTERS \<and> wellformed q \<and>
                 (q = [] \<or> expanded_in ans q)" if "x \<in> set A" for x
    using that by (rule tree_ok_parents [OF ok])
qed

lemma tree_ok_answer:
  assumes ok: "tree_ok A ans V W P" and p: "p \<in> set P"
    and P': "distinct P'" "set P' = set P - {p}"
    and kids: "kids = (if length results = MAX_RESULTS_PER_QUERY
                       then filter (\<lambda>x. x \<notin> V) (map ((@) p) VALID_CHARACTERS) else [])"
  shows "tree_ok (A @ kids) (ans @ [(p, results)]) V (W @ kids) P'"
proof (rule tree_okI)
  let ?ans = "ans @ [(p, results)]"
  note parts = tree_ok_parts [OF ok]
  from parts(7,8) p have p_V: "p \<in> V" and p_ans: "p \<notin> fst ` set ans"
    by auto
  from parts(4) p_V have "p \<in> set A" by blast
  from tree_ok_wellformed [OF ok this] have wf: "wellformed p" by simp
  have kid: "\<exists>c. x = p @ c \<and> c \<in> set VALID_CHARACTERS" if "x \<in> set kids" for x
    using that kids by (auto split: if_splits)
  have fresh: "x \<notin> set A" if "x \<in> set kids" for x
  proof
    assume "x \<in> set A"
    moreover from kid [OF that] obtain c where "x = p @ c" "c \<in> set VALID_CHARACTERS" by blast
    ultimately have "expanded_in ans p"
      using tree_ok_child [OF ok p_V] by blast
    with p_ans expanded_in_answered show False by blast
  qed
  have "distinct (map ((@) p) VALID_CHARACTERS)"
    using distinct_VALID_CHARACTERS by (simp add: distinct_map inj_on_def)
  then have "distinct kids"
    using kids by simp
  moreover have "set A \<inter> set kids = {}" using fresh by blast
  ultimately show "distinct (A @ kids)" using parts(1) by simp
  show "distinct (map fst ?ans)" using parts(2) p_ans by simp
  show "fst ` set ?ans \<subseteq> V" using parts(3) p_V by auto
  show "V \<subseteq> set (A @ kids)" using parts(4) by auto
  show "set (W @ kids) \<subseteq> set (A @ kids)" using parts(5) by auto
  show "distinct P'" by fact
  show "set P' \<subseteq> V" using parts(7) P'(2) by blast
  show "set P' \<inter> fst ` set ?ans = {}" using parts(8) P'(2) by auto
  fix x
  assume "x \<in> set (A @ kids)"
  then consider "x \<in> set A" | "x \<in> set kids" by auto
  then show "\<exists>q c. x = q @ c \<and> c \<in> set VALID_CHARACTERS \<and> wellformed q \<and>
                 (q = [] \<or> expanded_in ?ans q)"
  proof cases
    case 1
    from tree_ok_parents [OF ok 1] obtain q c where "x = q @ c" "c \<in> set VALID_CHARACTERS"
      "wellformed q" "q = [] \<or> expanded_in ans q"
      by blast
    then show ?thesis using expanded_in_append by blast
  next
    case 2
    with kids have full: "length results = MAX_RESULTS_PER_QUERY"
      by (auto split: if_splits)
    then have "expanded_in ?ans p" by (auto simp add: expanded_in_def)
    with kid [OF 2] wf show ?thesis by blast
  qed
qed

subsection \<open>What each part of the program leaves alone\<close>

lemma adjustConcurrency_frame [simp]:
  "totalRequests (adjustConcurrency n s) = totalRequests s"
  "visitedPrefixes (adjustConcurrency n s) = visitedPrefixes s"
  "discoveredNames (adjustConcurrency n s) = discoveredNames s"
  "lastSavedCount (adjustConcurrency n s) = lastSavedCount s"
  "queue_waiting (adjustConcurrency n s) = queue_waiting s"
  "queue_running (adjustConcurrency n s) = queue_running s"
  "idle_resolved (adjustConcurrency n s) = idle_resolved s"
  "added (adjustConcurrency n s) = added s"
  "requests (adjustConcurrency n s) = requests s"
  "answers (adjustConcurrency n s) = answers s"
  "written (adjustConcurrency n s) = written s"
  "queue_intervalCount (adjustConcurrency n s) = queue_intervalCount s"
  by (simp_all add: adjustConcurrency_def Let_def)

lemma queryAPI_enter_frame [simp]:
  "currentConcurrency (queryAPI_enter p a s) = currentConcurrency s"
  "visitedPrefixes (queryAPI_enter p a s) = visitedPrefixes s"
  "discoveredNames (queryAPI_enter p a s) = discoveredNames s"
  "lastSavedCount (queryAPI_enter p a s) = lastSavedCount s"
  "queue_concurrency (queryAPI_enter p a s) = queue_concurrency s"
  "queue_waiting (queryAPI_enter p a s) = queue_waiting s"
  "queue_running (queryAPI_enter p a s) = queue_running s"
  "idle_resolved (queryAPI_enter p a s) = idle_resolved s"
  "added (queryAPI_enter p a s) = added s"
  "answers (queryAPI_enter p a s) = answers s"
  "written (queryAPI_enter p a s) = written s"
  "queue_intervalCount (queryAPI_enter p a s) = queue_intervalCount s"
  by (simp_all add: queryAPI_enter_def)

lemma saveProgress_frame [simp]:
  "totalRequests (saveProgress s) = totalRequests s"
  "currentConcurrency (saveProgress s) = currentConcurrency s"
  "visitedPrefixes (saveProgress s) = visitedPrefixes s"
  "discoveredNames (saveProgress s) = discoveredNames s"
  "lastSavedCount (saveProgress s) = lastSavedCount s"
  "queue_concurrency (saveProgress s) = queue_concurrency s"
  "queue_waiting (saveProgress s) = queue_waiting s"
  "queue_running (saveProgress s) = queue_running s"
  "idle_resolved (saveProgress s) = idle_resolved s"
  "added (saveProgress s) = added s"
  "requests (saveProgress s) = requests s"
  "answers (saveProgress s) = answers s"
  "queue_intervalCount (saveProgress s) = queue_intervalCount s"
  by (simp_all add: saveProgress_def)

lemma maybeSaveProgress_frame [simp]:
  "totalRequests (maybeSaveProgress s) = totalRequests s"
  "currentConcurrency (maybeSaveProgress s) = currentConcurrency s"
  "visitedPrefixes (maybeSaveProgress s) = visitedPrefixes s"
  "discoveredNames (maybeSaveProgress s) = discoveredNames s"
  "queue_concurrency (maybeSaveProgress s) = queue_concurrency s"
  "queue_waiting (maybeSaveProgress s) = queue_waiting s"
  "queue_running (maybeSaveProgress s) = queue_running s"
  "idle_resolved (maybeSaveProgress s) = idle_resolved s"
  "added (maybeSaveProgress s) = added s"
  "requests (maybeSaveProgress s) = requests s"
  "answers (maybeSaveProgress s) = answers s"
  "queue_intervalCount (maybeSaveProgress s) = queue_intervalCount s"
  by (simp_all add: maybeSaveProgress_def)

lemma monitorBacklog_frame [simp]:
  "totalRequests (monitorBacklog s) = totalRequests s"
  "visitedPrefixes (monitorBacklog s) = visitedPrefixes s"
  "discoveredNames (monitorBacklog s) = discoveredNames s"
  "lastSavedCount (monitorBacklog s) = lastSavedCount s"
  "queue_waiting (monitorBacklog s) = queue_waiting s"
  "queue_running (monitorBacklog s) = queue_running s"
  "idle_resolved (monitorBacklog s) = idle_resolved s"
  "added (monitorBacklog s) = added s"
  "requests (monitorBacklog s) = requests s"
  "answers (monitorBacklog s) = answers s"
  "written (monitorBacklog s) = written s"
  "queue_intervalCount (monitorBacklog s) = queue_intervalCount s"
  by (simp_all add: monitorBacklog_def Let_def)

lemma queryAPI_settle_frame [simp]:
  "totalRequests (snd (queryAPI_settle r a s)) = totalRequests s"
  "visitedPrefixes (snd (queryAPI_settle r a s)) = visitedPrefixes s"
  "discoveredNames (snd (queryAPI_settle r a s)) = discoveredNames s"
  "lastSavedCount (snd (queryAPI_settle r a s)) = lastSavedCount s"
  "queue_waiting (snd (queryAPI_settle r a s)) = queue_waiting s"
  "queue_running (snd (queryAPI_settle r a s)) = queue_running s"
  "idle_resolved (snd (queryAPI_settle r a s)) = idle_resolved s"
  "added (snd (queryAPI_settle r a s)) = added s"
  "requests (snd (queryAPI_settle r a s)) = requests s"
  "answers (snd (queryAPI_settle r a s)) = answers s"
  "written (snd (queryAPI_settle r a s)) = written s"
  "queue_intervalCount (snd (queryAPI_settle r a s)) = queue_intervalCount s"
  by (simp_all add: queryAPI_settle_def split: outcome.splits body.splits)

lemma expand_frame [simp]:
  "totalRequests (expand p cs s) = totalRequests s"
  "currentConcurrency (expand p cs s) = currentConcurrency s"
  "visitedPrefixes (expand p cs s) = visitedPrefixes s"
  "discoveredNames (expand p cs s) = discoveredNames s"
  "lastSavedCount (expand p cs s) = lastSavedCount s"
  "queue_concurrency (expand p cs s) = queue_concurrency s"
  "queue_running (expand p cs s) = queue_running s"
  "idle_resolved (expand p cs s) = idle_resolved s"
  "requests (expand p cs s) = requests s"
  "answers (expand p cs s) = answers s"
  "written (expand p cs s) = written s"
  "queue_intervalCount (expand p cs s) = queue_intervalCount s"
  by (simp_all add: expand_eq)

lemma processPrefix_resume_frame [simp]:
  "totalRequests (processPrefix_resume p results s) = totalRequests s"
  "currentConcurrency (processPrefix_resume p results s) = currentConcurrency s"
  "visitedPrefixes (processPrefix_resume p results s) = visitedPrefixes s"
  "queue_concurrency (processPrefix_resume p results s) = queue_concurrency s"
  "queue_running (processPrefix_resume p results s) = queue_running s"
  "idle_resolved (processPrefix_resume p results s) = idle_resolved s"
  "requests (processPrefix_resume p results s) = requests s"
  "queue_intervalCount (processPrefix_resume p results s) = queue_intervalCount s"
  by (simp_all add: processPrefix_resume_def Let_def)

lemma queryAPI_enter_requests [simp]:
  "requests (queryAPI_enter p a s) = requests s @ [(p, a)]"
  by (simp add: queryAPI_enter_def)

lemma queryAPI_enter_totalRequests [simp]:
  "totalRequests (queryAPI_enter p a s) = Suc (totalRequests s)"
  by (simp add: queryAPI_enter_def)

lemma written_saveProgress [simp]:
  "written (saveProgress s) = written s @
     [\<lparr> snap_totalRequests = totalRequests s, snap_totalNames = length (discoveredNames s),
        snap_names = discoveredNames s \<rparr>]"
  by (simp add: saveProgress_def)

lemma processPrefix_resume_answers [simp]:
  "answers (processPrefix_resume p results s) = answers s @ [(p, results)]"
  by (simp add: processPrefix_resume_def Let_def)

lemma processPrefix_resume_children [simp]:
  "added (processPrefix_resume p results s) = added s @ children p results (visitedPrefixes s)"
  "queue_waiting (processPrefix_resume p results s) =
     queue_waiting s @ children p results (visitedPrefixes s)"
  by (simp_all add: processPrefix_resume_def Let_def expand_eq children_def)

lemma set_foldl_set_add:
  "set (foldl (\<lambda>names name. set_add name names) xs ys) = set xs \<union> set ys"
  by (induction ys arbitrary: xs) (auto simp add: set_add_def)

lemma processPrefix_resume_names:
  "set (discoveredNames (processPrefix_resume p results s)) = set (discoveredNames s) \<union> set results"
  by (simp add: processPrefix_resume_def Let_def maybeSaveProgress_def saveProgress_def
      set_foldl_set_add)

lemma queryAPI_settle_cases:
  "(\<exists>results. fst (queryAPI_settle r a s) = Return results) \<or>
   (\<exists>ms. fst (queryAPI_settle r a s) = RetryAfter ms (a + 1))"
  by (simp add: queryAPI_settle_def split: outcome.splits body.splits)

subsection \<open>The steps of a run, one case at a time\<close>

lemma PQueue_run_visited:
  "p \<in> visitedPrefixes s \<Longrightarrow>
   PQueue_run p s =
     s\<lparr>queue_intervalCount := Suc (queue_intervalCount s),
       queue_running := queue_running s @ [AwaitNext p]\<rparr>"
  by (simp add: PQueue_run_def processPrefix_enter_def)

lemma PQueue_run_new:
  "p \<notin> visitedPrefixes s \<Longrightarrow>
   PQueue_run p s =
     (queryAPI_enter p 1 (s\<lparr>queue_intervalCount := Suc (queue_intervalCount s),
         visitedPrefixes := insert p (visitedPrefixes s)\<rparr>))
       \<lparr>queue_running := queue_running s @ [AwaitResponse p 1]\<rparr>"
  by (simp add: PQueue_run_def processPrefix_enter_def queryAPI_enter_def)

lemma step_Start_cases:
  assumes "step Start s = Some s'"
  obtains p W where "queue_waiting s = p # W" "p \<in> visitedPrefixes s"
      "s' = s\<lparr>queue_waiting := W, queue_intervalCount := Suc (queue_intervalCount s),
               queue_running := queue_running s @ [AwaitNext p]\<rparr>"
  | p W where "queue_waiting s = p # W" "p \<notin> visitedPrefixes s"
      "s' = (queryAPI_enter p 1 (s\<lparr>queue_waiting := W,
                queue_intervalCount := Suc (queue_intervalCount s),
                visitedPrefixes := insert p (visitedPrefixes s)\<rparr>))
             \<lparr>queue_running := queue_running s @ [AwaitResponse p 1]\<rparr>"
proof (cases "queue_waiting s")
  case Nil
  with assms show ?thesis by simp
next
  case (Cons p W)
  show ?thesis
  proof (cases "p \<in> visitedPrefixes s")
    case True
    with assms Cons that(1) [of p W] show ?thesis
      by (simp add: PQueue_run_visited)
  next
    case False
    with assms Cons that(2) [of p W] show ?thesis
      by (simp add: PQueue_run_new)
  qed
qed

lemma step_Settle_cases:
  assumes "step (Settle t r) s = Some s'"
  obtains p a results where "t = AwaitResponse p a" "t \<in> set (queue_running s)"
      "fst (queryAPI_settle r a s) = Return results"
      "s' = (snd (queryAPI_settle r a s))
             \<lparr>queue_running := remove1 t (queue_running s) @ [AwaitResume p results]\<rparr>"
  | p a ms where "t = AwaitResponse p a" "t \<in> set (queue_running s)"
      "fst (queryAPI_settle r a s) = RetryAfter ms (a + 1)"
      "s' = (snd (queryAPI_settle r a s))
             \<lparr>queue_running := remove1 t (queue_running s) @ [AwaitDelay p (a + 1)]\<rparr>"
proof (cases t)
  case (AwaitResponse p a)
  obtain k s1 where ks: "queryAPI_settle r a s = (k, s1)"
    by force
  then have fs: "fst (queryAPI_settle r a s) = k" "snd (queryAPI_settle r a s) = s1"
    by simp_all
  from queryAPI_settle_cases [of r a s] fs(1)
  consider results where "k = Return results" | ms where "k = RetryAfter ms (a + 1)"
    by auto
  then show ?thesis
  proof cases
    case 1
    with assms AwaitResponse ks have "t \<in> set (queue_running s)"
      and "s' = s1\<lparr>queue_running := remove1 t (queue_running s) @ [AwaitResume p results]\<rparr>"
      by (auto split: if_splits)
    with 1 fs AwaitResponse that(1) [of p a results] show ?thesis by simp
  next
    case 2
    with assms AwaitResponse ks have "t \<in> set (queue_running s)"
      and "s' = s1\<lparr>queue_running := remove1 t (queue_running s) @ [AwaitDelay p (a + 1)]\<rparr>"
      by (auto split: if_splits)
    with 2 fs AwaitResponse that(2) [of p a ms] show ?thesis by simp
  qed
next
  case (AwaitDelay p a)
  with assms show ?thesis by (simp split: if_splits)
next
  case (AwaitResume p results)
  with assms show ?thesis by (simp split: if_splits)
next
  case (AwaitFinalDelay p)
  with assms show ?thesis by (simp split: if_splits)
next
  case (AwaitNext p)
  with assms show ?thesis by (simp split: if_splits)
qed

lemma step_Resume_cases:
  assumes "step (Resume t) s = Some s'"
  obtains p results where "t = AwaitResume p (Array results)" "t \<in> set (queue_running s)"
      "s' = (processPrefix_resume p results s)
             \<lparr>queue_running := remove1 t (queue_running s) @ [AwaitFinalDelay p]\<rparr>"
  | p where "t = AwaitResume p NotArray" "t \<in> set (queue_running s)"
      "s' = s\<lparr>queue_running := remove1 t (queue_running s)\<rparr>"
proof (cases t)
  case (AwaitResume p v)
  show ?thesis
  proof (cases v)
    case (Array results)
    with assms AwaitResume that(1) [of p results] show ?thesis
      by (simp add: processPrefix_continue_def split: if_splits)
  next
    case NotArray
    with assms AwaitResume that(2) [of p] show ?thesis
      by (simp add: processPrefix_continue_def split: if_splits)
  qed
qed (use assms in \<open>simp_all split: if_splits\<close>)

lemma step_Wake_cases:
  assumes "step (Wake t) s = Some s'"
  obtains p a where "t = AwaitDelay p a" "t \<in> set (queue_running s)"
      "s' = (queryAPI_enter p a s)
             \<lparr>queue_running := remove1 t (queue_running s) @ [AwaitResponse p a]\<rparr>"
  | p where "t = AwaitFinalDelay p \<or> t = AwaitNext p" "t \<in> set (queue_running s)"
      "s' = s\<lparr>queue_running := remove1 t (queue_running s)\<rparr>"
  using assms by (cases t) (auto split: if_splits)

lemma step_Interval_cases:
  assumes "step Interval s = Some s'"
  obtains "s' = s\<lparr>queue_intervalCount := 0\<rparr>"
  using assms by auto

lemma step_Idle_cases:
  assumes "step Idle s = Some s'"
  obtains "queue_waiting s = []" "queue_running s = []"
    "s' = saveProgress (saveProgress (s\<lparr>idle_resolved := True\<rparr>))"
  using assms by (auto split: if_splits)

subsection \<open>The tree of prefixes in a run\<close>

lemma pending_append [simp]:
  "pending (s\<lparr>queue_running := R @ [t]\<rparr>) = concat (map unanswered R) @ unanswered t"
  by (simp add: pending_def)

lemma pending_moved:
  assumes t: "t \<in> set R" and d: "distinct (concat (map unanswered R))"
    and p: "unanswered t = [p]"
  shows "distinct (concat (map unanswered (remove1 t R)) @ [p])"
    and "set (concat (map unanswered (remove1 t R)) @ [p]) \<subseteq> set (concat (map unanswered R))"
    and "p \<in> set (concat (map unanswered R))"
proof -
  note rest = set_concat_remove1_single [OF t d p]
  show "p \<in> set (concat (map unanswered R))"
    using t p by (rule in_concat_unanswered)
  then show "set (concat (map unanswered (remove1 t R)) @ [p]) \<subseteq> set (concat (map unanswered R))"
    using rest by auto
  show "distinct (concat (map unanswered (remove1 t R)) @ [p])"
    using distinct_concat_remove1 [OF d, of t] rest by simp
qed

lemma tree_inv_step:
  assumes inv: "tree_inv s" and step: "step e s = Some s'"
  shows "tree_inv s'"
proof -
  let ?P = "concat (map unanswered (queue_running s))"
  from inv have ok: "tree_ok (added s) (answers s) (visitedPrefixes s) (queue_waiting s) ?P"
    by (simp add: tree_inv_def pending_def)
  note d = tree_ok_parts(6) [OF ok]
  show ?thesis
  proof (cases e)
    case Start
    with step have "step Start s = Some s'" by simp
    then show ?thesis
    proof (cases rule: step_Start_cases)
      case (1 p W)
      with tree_ok_start_skip [of "added s" "answers s" "visitedPrefixes s" p W ?P] ok
      show ?thesis by (simp add: tree_inv_def pending_def)
    next
      case (2 p W)
      with tree_ok_start [of "added s" "answers s" "visitedPrefixes s" p W ?P] ok
      show ?thesis by (simp add: tree_inv_def)
    qed
  next
    case (Settle t r)
    with step have "step (Settle t r) s = Some s'" by simp
    then show ?thesis
    proof (cases rule: step_Settle_cases)
      case (1 p a results)
      from 1(1) have p: "unanswered t = [p]" by simp
      have "tree_ok (added s) (answers s) (visitedPrefixes s) (queue_waiting s)
              (concat (map unanswered (remove1 t (queue_running s))) @ [p])"
        using ok pending_moved(1,2) [OF 1(2) d p] by (rule tree_ok_pending)
      with 1(4) show ?thesis by (simp add: tree_inv_def)
    next
      case (2 p a ms)
      from 2(1) have p: "unanswered t = [p]" by simp
      have "tree_ok (added s) (answers s) (visitedPrefixes s) (queue_waiting s)
              (concat (map unanswered (remove1 t (queue_running s))) @ [p])"
        using ok pending_moved(1,2) [OF 2(2) d p] by (rule tree_ok_pending)
      with 2(4) show ?thesis by (simp add: tree_inv_def)
    qed
  next
    case (Resume t)
    with step have "step (Resume t) s = Some s'" by simp
    then show ?thesis
    proof (cases rule: step_Resume_cases)
      case (1 p results)
      let ?P' = "concat (map unanswered (remove1 t (queue_running s)))"
      from 1(1) have p: "unanswered t = [p]" by simp
      have "tree_ok (added s @ children p results (visitedPrefixes s))
              (answers s @ [(p, results)]) (visitedPrefixes s)
              (queue_waiting s @ children p results (visitedPrefixes s)) ?P'"
      proof (rule tree_ok_answer [OF ok])
        show "p \<in> set ?P" using 1(2) p by (rule in_concat_unanswered)
        show "distinct ?P'" using d by (rule distinct_concat_remove1)
        show "set ?P' = set ?P - {p}" using 1(2) d p by (rule set_concat_remove1_single)
        show "children p results (visitedPrefixes s) =
              (if length results = MAX_RESULTS_PER_QUERY
               then filter (\<lambda>x. x \<notin> visitedPrefixes s) (map ((@) p) VALID_CHARACTERS) else [])"
          by (simp add: children_def)
      qed
      with 1(3) show ?thesis by (simp add: tree_inv_def)
    next
      case (2 p)
      let ?P' = "concat (map unanswered (remove1 t (queue_running s)))"
      have "tree_ok (added s) (answers s) (visitedPrefixes s) (queue_waiting s) ?P'"
        using ok distinct_concat_remove1 [OF d] set_concat_remove1
        by (rule tree_ok_pending)
      with 2(3) show ?thesis by (simp add: tree_inv_def pending_def)
    qed
  next
    case (Wake t)
    with step have "step (Wake t) s = Some s'" by simp
    then show ?thesis
    proof (cases rule: step_Wake_cases)
      case (1 p a)
      from 1(1) have p: "unanswered t = [p]" by simp
      have "tree_ok (added s) (answers s) (visitedPrefixes s) (queue_waiting s)
              (concat (map unanswered (remove1 t (queue_running s))) @ [p])"
        using ok pending_moved(1,2) [OF 1(2) d p] by (rule tree_ok_pending)
      with 1(3) show ?thesis by (simp add: tree_inv_def)
    next
      case (2 p)
      then have "unanswered t = []" by auto
      then have "concat (map unanswered (remove1 t (queue_running s))) = ?P"
        by (simp add: concat_remove1_empty)
      with 2(3) ok show ?thesis by (simp add: tree_inv_def pending_def)
    qed
  next
    case Tick
    with step have "s' = monitorBacklog s" by simp
    with ok show ?thesis by (simp add: tree_inv_def pending_def)
  next
    case Interval
    with step have "s' = s\<lparr>queue_intervalCount := 0\<rparr>" by simp
    with ok show ?thesis by (simp add: tree_inv_def pending_def)
  next
    case Idle
    with step have "step Idle s = Some s'" by simp
    then show ?thesis
    proof (cases rule: step_Idle_cases)
      case 1
      with ok show ?thesis by (simp add: tree_inv_def pending_def)
    qed
  qed
qed

lemma tree_inv_init: "tree_inv init"
proof -
  have "tree_ok VALID_CHARACTERS [] {} VALID_CHARACTERS []"
  proof (rule tree_okI)
    show "distinct VALID_CHARACTERS" by (rule distinct_VALID_CHARACTERS)
    show "\<exists>p c. x = p @ c \<and> c \<in> set VALID_CHARACTERS \<and> wellformed p \<and> (p = [] \<or> expanded_in [] p)"
      if "x \<in> set VALID_CHARACTERS" for x
      using that wellformed_Nil by (intro exI [of _ "[]"] exI [of _ x]) simp
  qed simp_all
  then show ?thesis
    by (simp add: tree_inv_def pending_def init_eq loaded_def)
qed

subsection \<open>First requests in a run\<close>

lemma attempt_ok_remove1:
  "\<forall>t \<in> set R. attempt_ok t \<Longrightarrow> attempt_ok t' \<Longrightarrow> \<forall>u \<in> set (remove1 t R @ [t']). attempt_ok u"
  using set_remove1_subset [of t R] by auto

lemma dispatch_inv_step:
  assumes inv: "dispatch_inv s" and step: "step e s = Some s'"
  shows "dispatch_inv s'"
proof -
  from inv have d: "distinct (first_requests s)" and v: "set (first_requests s) = visitedPrefixes s"
    and ok: "\<forall>t \<in> set (queue_running s). attempt_ok t"
    by (simp_all add: dispatch_inv_def)
  show ?thesis
  proof (cases e)
    case Start
    with step have "step Start s = Some s'" by simp
    then show ?thesis
    proof (cases rule: step_Start_cases)
      case (1 p W)
      then have "first_requests s' = first_requests s"
        by (simp add: first_requests_def)
      with 1 d v ok show ?thesis by (auto simp add: dispatch_inv_def)
    next
      case (2 p W)
      then have "first_requests s' = first_requests s @ [p]"
        by (simp add: first_requests_def)
      with 2 d v ok show ?thesis by (auto simp add: dispatch_inv_def)
    qed
  next
    case (Settle t r)
    with step have "step (Settle t r) s = Some s'" by simp
    then show ?thesis
    proof (cases rule: step_Settle_cases)
      case (1 p a results)
      then have "first_requests s' = first_requests s"
        by (simp add: first_requests_def)
      moreover have "\<forall>u \<in> set (remove1 t (queue_running s) @ [AwaitResume p results]). attempt_ok u"
        using ok by (rule attempt_ok_remove1) simp
      ultimately show ?thesis using 1(4) d v by (simp add: dispatch_inv_def)
    next
      case (2 p a ms)
      then have "first_requests s' = first_requests s"
        by (simp add: first_requests_def)
      moreover have "\<forall>u \<in> set (remove1 t (queue_running s) @ [AwaitDelay p (a + 1)]). attempt_ok u"
      proof (rule attempt_ok_remove1 [OF ok])
        from ok 2(1,2) have "1 \<le> a" by auto
        then show "attempt_ok (AwaitDelay p (a + 1))" by simp
      qed
      ultimately show ?thesis using 2(4) d v by (simp add: dispatch_inv_def)
    qed
  next
    case (Resume t)
    with step have "step (Resume t) s = Some s'" by simp
    then show ?thesis
    proof (cases rule: step_Resume_cases)
      case (1 p results)
      then have "first_requests s' = first_requests s"
        by (simp add: first_requests_def)
      moreover have "\<forall>u \<in> set (remove1 t (queue_running s) @ [AwaitFinalDelay p]). attempt_ok u"
        using ok by (rule attempt_ok_remove1) simp
      ultimately show ?thesis using 1(3) d v by (simp add: dispatch_inv_def)
    next
      case (2 p)
      then have "first_requests s' = first_requests s"
        by (simp add: first_requests_def)
      moreover have "\<forall>u \<in> set (remove1 t (queue_running s)). attempt_ok u"
        using ok set_remove1_subset [of t "queue_running s"] by blast
      ultimately show ?thesis using 2(3) d v by (simp add: dispatch_inv_def)
    qed
  next
    case (Wake t)
    with step have "step (Wake t) s = Some s'" by simp
    then show ?thesis
    proof (cases rule: step_Wake_cases)
      case (1 p a)
      with ok have a: "2 \<le> a" by auto
      with 1 have "first_requests s' = first_requests s"
        by (simp add: first_requests_def)
      moreover have "\<forall>u \<in> set (remove1 t (queue_running s) @ [AwaitResponse p a]). attempt_ok u"
        using ok by (rule attempt_ok_remove1) (use a in simp)
      ultimately show ?thesis using 1(3) d v by (simp add: dispatch_inv_def)
    next
      case (2 p)
      then have "first_requests s' = first_requests s"
        by (simp add: first_requests_def)
      moreover have "\<forall>u \<in> set (remove1 t (queue_running s)). attempt_ok u"
        using ok set_remove1_subset [of t "queue_running s"] by blast
      ultimately show ?thesis using 2(3) d v by (simp add: dispatch_inv_def)
    qed
  next
    case Tick
    with step have s': "s' = monitorBacklog s" by simp
    then have "first_requests s' = first_requests s"
      by (simp add: first_requests_def)
    with s' d v ok show ?thesis by (simp add: dispatch_inv_def)
  next
    case Interval
    with step have s': "s' = s\<lparr>queue_intervalCount := 0\<rparr>" by simp
    then have "first_requests s' = first_requests s"
      by (simp add: first_requests_def)
    with s' d v ok show ?thesis by (simp add: dispatch_inv_def)
  next
    case Idle
    with step have "step Idle s = Some s'" by simp
    then show ?thesis
    proof (cases rule: step_Idle_cases)
      case 1
      then have "first_requests s' = first_requests s"
        by (simp add: first_requests_def)
      with 1 d v ok show ?thesis by (simp add: dispatch_inv_def)
    qed
  qed
qed

lemma dispatch_inv_init: "dispatch_inv init"
  by (simp add: dispatch_inv_def first_requests_def init_eq loaded_def)

subsection \<open>Snapshots in a run\<close>

lemma snapshot_inv_grow:
  assumes "snapshot_inv s" and "written s' = written s"
    and "set (discoveredNames s) \<subseteq> set (discoveredNames s')"
    and "totalRequests s \<le> totalRequests s'"
  shows "snapshot_inv s'"
  using assms unfolding snapshot_inv_def by fastforce

lemma snapshot_inv_saveProgress:
  assumes "snapshot_inv s"
  shows "snapshot_inv (saveProgress s)"
  using assms unfolding snapshot_inv_def
  by (auto simp add: sorted_wrt_append snapshot_le_def)

lemma snapshot_inv_maybeSaveProgress:
  assumes "snapshot_inv s"
  shows "snapshot_inv (maybeSaveProgress s)"
proof (cases "length (discoveredNames s) \<ge> lastSavedCount s + 500")
  case True
  have "snapshot_inv (s\<lparr>lastSavedCount := length (discoveredNames s)\<rparr>)"
    using assms by (rule snapshot_inv_grow) simp_all
  then have "snapshot_inv (saveProgress (s\<lparr>lastSavedCount := length (discoveredNames s)\<rparr>))"
    by (rule snapshot_inv_saveProgress)
  with True show ?thesis by (simp add: maybeSaveProgress_def)
next
  case False
  with assms show ?thesis by (simp add: maybeSaveProgress_def)
qed

lemma snapshot_inv_processPrefix_resume:
  assumes "snapshot_inv s"
  shows "snapshot_inv (processPrefix_resume p results s)"
proof -
  let ?s1 = "s\<lparr>discoveredNames := foldl (\<lambda>names name. set_add name names)
                                       (discoveredNames s) results,
               answers := answers s @ [(p, results)]\<rparr>"
  have "snapshot_inv ?s1"
    using assms by (rule snapshot_inv_grow) (simp_all add: set_foldl_set_add)
  then have s2: "snapshot_inv (maybeSaveProgress ?s1)"
    by (rule snapshot_inv_maybeSaveProgress)
  have "snapshot_inv (expand p VALID_CHARACTERS (maybeSaveProgress ?s1))"
    using s2 by (rule snapshot_inv_grow) simp_all
  with s2 show ?thesis
    by (simp add: processPrefix_resume_def Let_def)
qed

lemma snapshot_inv_step:
  assumes inv: "snapshot_inv s" and step: "step e s = Some s'"
  shows "snapshot_inv s'"
proof (cases e)
  case Start
  with step have "step Start s = Some s'" by simp
  then show ?thesis
  proof (cases rule: step_Start_cases)
    case (1 p W)
    show ?thesis using inv by (rule snapshot_inv_grow) (simp_all add: 1)
  next
    case (2 p W)
    show ?thesis using inv by (rule snapshot_inv_grow) (simp_all add: 2)
  qed
next
  case (Settle t r)
  with step have "step (Settle t r) s = Some s'" by simp
  then show ?thesis
  proof (cases rule: step_Settle_cases)
    case (1 p a results)
    show ?thesis using inv by (rule snapshot_inv_grow) (simp_all add: 1)
  next
    case (2 p a ms)
    show ?thesis using inv by (rule snapshot_inv_grow) (simp_all add: 2)
  qed
next
  case (Resume t)
  with step have "step (Resume t) s = Some s'" by simp
  then show ?thesis
  proof (cases rule: step_Resume_cases)
    case (1 p results)
    have "snapshot_inv (processPrefix_resume p results s)"
      using inv by (rule snapshot_inv_processPrefix_resume)
    then show ?thesis by (rule snapshot_inv_grow) (simp_all add: 1)
  next
    case (2 p)
    show ?thesis using inv by (rule snapshot_inv_grow) (simp_all add: 2)
  qed
next
  case (Wake t)
  with step have "step (Wake t) s = Some s'" by simp
  then show ?thesis
  proof (cases rule: step_Wake_cases)
    case (1 p a)
    show ?thesis using inv by (rule snapshot_inv_grow) (simp_all add: 1)
  next
    case (2 p)
    show ?thesis using inv by (rule snapshot_inv_grow) (simp_all add: 2)
  qed
next
  case Tick
  with step have s': "s' = monitorBacklog s" by simp
  show ?thesis using inv by (rule snapshot_inv_grow) (simp_all add: s')
next
  case Interval
  with step have s': "s' = s\<lparr>queue_intervalCount := 0\<rparr>" by simp
  show ?thesis using inv by (rule snapshot_inv_grow) (simp_all add: s')
next
  case Idle
  with step have "step Idle s = Some s'" by simp
  then show ?thesis
  proof (cases rule: step_Idle_cases)
    case 1
    have "snapshot_inv (s\<lparr>idle_resolved := True\<rparr>)"
      using inv by (rule snapshot_inv_grow) simp_all
    then have "snapshot_inv (saveProgress (saveProgress (s\<lparr>idle_resolved := True\<rparr>)))"
      by (intro snapshot_inv_saveProgress)
    with 1 show ?thesis by simp
  qed
qed

lemma snapshot_inv_init: "snapshot_inv init"
  by (simp add: snapshot_inv_def init_eq loaded_def)

subsection \<open>The concurrency in a run\<close>

lemma concurrency_inv_same:
  assumes "concurrency_inv s" and "currentConcurrency s' = currentConcurrency s"
    and "queue_concurrency s' = queue_concurrency s"
  shows "concurrency_inv s'"
  using assms by (simp add: concurrency_inv_def)

lemma concurrency_inv_queryAPI_settle:
  assumes "concurrency_inv s"
  shows "concurrency_inv (snd (queryAPI_settle r a s))"
  using assms concurrency_inv_adjustConcurrency
  by (simp add: queryAPI_settle_def split: outcome.splits body.splits)

lemma concurrency_inv_monitorBacklog:
  assumes "concurrency_inv s"
  shows "concurrency_inv (monitorBacklog s)"
  using assms concurrency_inv_adjustConcurrency
  by (simp add: monitorBacklog_def Let_def)

lemma concurrency_inv_step:
  assumes inv: "concurrency_inv s" and step: "step e s = Some s'"
  shows "concurrency_inv s'"
proof (cases e)
  case Start
  with step have "step Start s = Some s'" by simp
  then show ?thesis
  proof (cases rule: step_Start_cases)
    case (1 p W)
    show ?thesis using inv by (rule concurrency_inv_same) (simp_all add: 1)
  next
    case (2 p W)
    show ?thesis using inv by (rule concurrency_inv_same) (simp_all add: 2)
  qed
next
  case (Settle t r)
  with step have "step (Settle t r) s = Some s'" by simp
  then show ?thesis
  proof (cases rule: step_Settle_cases)
    case (1 p a results)
    from inv have "concurrency_inv (snd (queryAPI_settle r a s))"
      by (rule concurrency_inv_queryAPI_settle)
    then show ?thesis by (rule concurrency_inv_same) (simp_all add: 1)
  next
    case (2 p a ms)
    from inv have "concurrency_inv (snd (queryAPI_settle r a s))"
      by (rule concurrency_inv_queryAPI_settle)
    then show ?thesis by (rule concurrency_inv_same) (simp_all add: 2)
  qed
next
  case (Wake t)
  with step have "step (Wake t) s = Some s'" by simp
  then show ?thesis
  proof (cases rule: step_Wake_cases)
    case (1 p a)
    show ?thesis using inv by (rule concurrency_inv_same) (simp_all add: 1)
  next
    case (2 p)
    show ?thesis using inv by (rule concurrency_inv_same) (simp_all add: 2)
  qed
next
  case (Resume t)
  with step have "step (Resume t) s = Some s'" by simp
  then show ?thesis
  proof (cases rule: step_Resume_cases)
    case (1 p results)
    show ?thesis using inv by (rule concurrency_inv_same) (simp_all add: 1)
  next
    case (2 p)
    show ?thesis using inv by (rule concurrency_inv_same) (simp_all add: 2)
  qed
next
  case Tick
  with step have "s' = monitorBacklog s" by simp
  with inv show ?thesis by (simp add: concurrency_inv_monitorBacklog)
next
  case Interval
  with step have s': "s' = s\<lparr>queue_intervalCount := 0\<rparr>" by simp
  show ?thesis using inv by (rule concurrency_inv_same) (simp_all add: s')
next
  case Idle
  with step have "step Idle s = Some s'" by simp
  then show ?thesis
  proof (cases rule: step_Idle_cases)
    case 1
    show ?thesis using inv by (rule concurrency_inv_same) (simp_all add: 1)
  qed
qed

subsection \<open>Invariants of every run\<close>

lemma run_concurrency_inv:
  assumes "run es init = Some s"
  shows "concurrency_inv s"
  using assms concurrency_inv_init
proof (rule run_invariant)
  fix e s s'
  assume "concurrency_inv s" and "step e s = Some s'"
  then show "concurrency_inv s'" by (rule concurrency_inv_step)
qed

lemma run_tree_inv:
  assumes "run es init = Some s"
  shows "tree_inv s"
  using assms tree_inv_init
proof (rule run_invariant)
  fix e s s'
  assume "tree_inv s" and "step e s = Some s'"
  then show "tree_inv s'" by (rule tree_inv_step)
qed

lemma run_dispatch_inv:
  assumes "run es init = Some s"
  shows "dispatch_inv s"
  using assms dispatch_inv_init
proof (rule run_invariant)
  fix e s s'
  assume "dispatch_inv s" and "step e s = Some s'"
  then show "dispatch_inv s'" by (rule dispatch_inv_step)
qed

lemma run_snapshot_inv:
  assumes "run es init = Some s"
  shows "snapshot_inv s"
  using assms snapshot_inv_init
proof (rule run_invariant)
  fix e s s'
  assume "snapshot_inv s" and "step e s = Some s'"
  then show "snapshot_inv s'" by (rule snapshot_inv_step)
qed

subsection \<open>Steps that can happen\<close>

lemma step_Start_new:
  assumes "queue_waiting s = p # W" and "p \<notin> visitedPrefixes s"
  shows "step Start s =
     Some ((queryAPI_enter p 1 (s\<lparr>queue_waiting := W,
               queue_intervalCount := Suc (queue_intervalCount s),
               visitedPrefixes := insert p (visitedPrefixes s)\<rparr>))
            \<lparr>queue_running := queue_running s @ [AwaitResponse p 1]\<rparr>)"
  using assms by (simp add: PQueue_run_new)

lemma step_Settle_return:
  assumes "AwaitResponse p a \<in> set (queue_running s)"
    and "fst (queryAPI_settle r a s) = Return results"
  shows "step (Settle (AwaitResponse p a) r) s =
     Some ((snd (queryAPI_settle r a s))
            \<lparr>queue_running := remove1 (AwaitResponse p a) (queue_running s)
                                @ [AwaitResume p results]\<rparr>)"
  using assms by (simp add: case_prod_beta)

lemma step_Resume:
  assumes "AwaitResume p (Array results) \<in> set (queue_running s)"
  shows "step (Resume (AwaitResume p (Array results))) s =
     Some ((processPrefix_resume p results s)
            \<lparr>queue_running := remove1 (AwaitResume p (Array results)) (queue_running s)
                                @ [AwaitFinalDelay p]\<rparr>)"
  using assms by (simp add: processPrefix_continue_def)

lemma step_Settle_retry:
  assumes "AwaitResponse p a \<in> set (queue_running s)"
    and "fst (queryAPI_settle r a s) = RetryAfter ms a'"
  shows "step (Settle (AwaitResponse p a) r) s =
     Some ((snd (queryAPI_settle r a s))
            \<lparr>queue_running := remove1 (AwaitResponse p a) (queue_running s) @ [AwaitDelay p a']\<rparr>)"
  using assms by (simp add: case_prod_beta)

lemma step_Wake_final:
  assumes "AwaitFinalDelay p \<in> set (queue_running s)"
  shows "step (Wake (AwaitFinalDelay p)) s =
     Some (s\<lparr>queue_running := remove1 (AwaitFinalDelay p) (queue_running s)\<rparr>)"
  using assms by simp

lemma init_fields:
  "queue_waiting init = ''0'' # tl VALID_CHARACTERS"
  "visitedPrefixes init = {}"
  "queue_running init = []"
  "currentConcurrency init = 26"
  "discoveredNames init = []"
  "lastSavedCount init = 0"
  "totalRequests init = 0"
  "written init = []"
  "added init = VALID_CHARACTERS"
  "answers init = []"
  "requests init = []"
  "idle_resolved init = False"
  "queue_intervalCount init = 0"
  "queue_concurrency init = 26"
  by (simp_all add: init_eq loaded_def VALID_CHARACTERS_def)

section \<open>C6: the bounds of the concurrency\<close>

text \<open>
  C6. \<open>adjustConcurrency\<close> brings every value into the bounds 5 and 80; the initial
  value 26 is in the bounds; and in every state a run reaches, \<open>currentConcurrency\<close> is
  in the bounds and is the concurrency of the queue.
\<close>

theorem concurrency_bounds:
  "MIN_CONCURRENCY \<le> currentConcurrency (adjustConcurrency n s)
   \<and> currentConcurrency (adjustConcurrency n s) \<le> MAX_CONCURRENCY
   \<and> MIN_CONCURRENCY \<le> currentConcurrency init \<and> currentConcurrency init \<le> MAX_CONCURRENCY
   \<and> (run es init = Some s' \<longrightarrow>
        MIN_CONCURRENCY \<le> currentConcurrency s' \<and> currentConcurrency s' \<le> MAX_CONCURRENCY
        \<and> queue_concurrency s' = currentConcurrency s')
   \<and> MIN_CONCURRENCY = 5 \<and> MAX_CONCURRENCY = 80"
  using concurrency_inv_adjustConcurrency [of n s] concurrency_inv_init
    run_concurrency_inv [of es s']
  by (simp add: concurrency_inv_def MIN_CONCURRENCY_def MAX_CONCURRENCY_def)

theorem concurrency_bounds_witness:
  "\<exists>s. run [Start, Settle (AwaitResponse ''0'' 1) Response429] init = Some s
       \<and> currentConcurrency s = 23 \<and> queue_concurrency s = 23
       \<and> MIN_CONCURRENCY \<le> currentConcurrency s \<and> currentConcurrency s \<le> MAX_CONCURRENCY"
proof -
  let ?t = "AwaitResponse ''0'' 1"
  let ?s1 = "(queryAPI_enter ''0'' 1 (init\<lparr>queue_waiting := tl VALID_CHARACTERS,
               queue_intervalCount := Suc (queue_intervalCount init),
               visitedPrefixes := insert ''0'' (visitedPrefixes init)\<rparr>))
            \<lparr>queue_running := queue_running init @ [?t]\<rparr>"
  let ?s2 = "(snd (queryAPI_settle Response429 1 ?s1))
            \<lparr>queue_running := remove1 ?t (queue_running ?s1) @ [AwaitDelay ''0'' 2]\<rparr>"
  have 1: "step Start init = Some ?s1"
    by (rule step_Start_new) (simp_all add: init_fields)
  have 2: "step (Settle ?t Response429) ?s1 = Some ?s2"
    by (rule step_Settle_retry) (simp_all add: queryAPI_settle_def RATE_LIMIT_COOLDOWN_MS_def)
  have run: "run [Start, Settle ?t Response429] init = Some ?s2"
    by (simp only: run.simps 1 2 option.case)
  have "currentConcurrency ?s2 = 23"
    by (simp add: queryAPI_settle_def adjustConcurrency_def decreased_eq init_fields
        MIN_CONCURRENCY_def MAX_CONCURRENCY_def)
  with run concurrency_bounds [of 0 ?s2 "[Start, Settle ?t Response429]" ?s2]
  show ?thesis by simp
qed

section \<open>C5: leaves\<close>

text \<open>
  C5. When \<open>queryAPI\<close> has given fewer than 15 results for a prefix, \<open>processPrefix\<close>
  adds nothing to the queue; so it is in a run when the call ends with the empty array
  because the retries are used up. In every state a run reaches, a prefix that
  \<open>queryAPI\<close> answered with fewer than 15 results has none of its children among the
  prefixes ever given to \<open>queue.add\<close>.
\<close>

theorem leaf_pruning:
  "(length results < MAX_RESULTS_PER_QUERY \<longrightarrow>
      queue_waiting (processPrefix_resume prefix results s) = queue_waiting s
      \<and> added (processPrefix_resume prefix results s) = added s)
   \<and> (AwaitResponse p attempt \<in> set (queue_running t) \<and> 5 < attempt
        \<and> run [Settle (AwaitResponse p attempt) RequestError, Resume (AwaitResume p (Array []))] t = Some t'
      \<longrightarrow> (p, []) \<in> set (answers t') \<and> queue_waiting t' = queue_waiting t
          \<and> added t' = added t)
   \<and> (run es init = Some u \<and> (q, answer) \<in> set (answers u)
        \<and> length answer < MAX_RESULTS_PER_QUERY \<and> c \<in> set VALID_CHARACTERS
      \<longrightarrow> q @ c \<notin> set (added u))"
proof (intro conjI impI)
  assume "length results < MAX_RESULTS_PER_QUERY"
  then have "length results \<noteq> MAX_RESULTS_PER_QUERY" by simp
  then show "queue_waiting (processPrefix_resume prefix results s) = queue_waiting s"
    and "added (processPrefix_resume prefix results s) = added s"
    by (rule processPrefix_resume_leaf)+
next
  let ?t1 = "(snd (queryAPI_settle RequestError attempt t))
            \<lparr>queue_running := remove1 (AwaitResponse p attempt) (queue_running t)
                                @ [AwaitResume p (Array [])]\<rparr>"
  let ?t2 = "(processPrefix_resume p [] ?t1)
            \<lparr>queue_running := remove1 (AwaitResume p (Array [])) (queue_running ?t1)
                                @ [AwaitFinalDelay p]\<rparr>"
  assume a: "AwaitResponse p attempt \<in> set (queue_running t) \<and> 5 < attempt
        \<and> run [Settle (AwaitResponse p attempt) RequestError, Resume (AwaitResume p (Array []))] t = Some t'"
  then have k: "fst (queryAPI_settle RequestError attempt t) = Return (Array [])"
    by (simp add: queryAPI_settle_def)
  from a have inR: "AwaitResponse p attempt \<in> set (queue_running t)"
    and st: "run [Settle (AwaitResponse p attempt) RequestError, Resume (AwaitResume p (Array []))] t
               = Some t'"
    by blast+
  have 1: "step (Settle (AwaitResponse p attempt) RequestError) t = Some ?t1"
    using inR k by (rule step_Settle_return)
  have 2: "step (Resume (AwaitResume p (Array []))) ?t1 = Some ?t2"
    by (rule step_Resume) simp
  from st have t': "t' = ?t2"
    by (simp only: run.simps 1 2 option.case option.inject)
  show "(p, []) \<in> set (answers t')" and "queue_waiting t' = queue_waiting t"
    and "added t' = added t"
    by (simp_all add: t' children_def MAX_RESULTS_PER_QUERY_def)
next
  assume a: "run es init = Some u \<and> (q, answer) \<in> set (answers u)
        \<and> length answer < MAX_RESULTS_PER_QUERY \<and> c \<in> set VALID_CHARACTERS"
  then have "run es init = Some u" by blast
  then have "tree_inv u" by (rule run_tree_inv)
  then have ok: "tree_ok (added u) (answers u) (visitedPrefixes u) (queue_waiting u) (pending u)"
    by (simp add: tree_inv_def)
  from a have "(q, answer) \<in> set (answers u)"
    and "length answer \<noteq> MAX_RESULTS_PER_QUERY" and "c \<in> set VALID_CHARACTERS"
    by simp_all
  with ok show "q @ c \<notin> set (added u)"
    by (rule tree_ok_leaf)
qed

theorem leaf_pruning_witness:
  "queue_waiting (processPrefix_resume ''a'' [''ab''] loaded) = queue_waiting loaded
   \<and> (\<exists>t'. run [Settle (AwaitResponse ''c'' 6) RequestError, Resume (AwaitResume ''c'' (Array []))]
               (loaded\<lparr>queue_running := [AwaitResponse ''c'' 6]\<rparr>) = Some t'
           \<and> (''c'', []) \<in> set (answers t') \<and> added t' = [])
   \<and> (\<exists>u. run [Start, Settle (AwaitResponse ''0'' 1) (Response2xx (Body (Items [''0x'']))),
                 Resume (AwaitResume ''0'' (Array [''0x'']))] init = Some u
           \<and> (''0'', [''0x'']) \<in> set (answers u) \<and> ''0a'' \<notin> set (added u))"
proof -
  let ?t = "AwaitResponse ''0'' 1"
  let ?r = "Response2xx (Body (Items [''0x'']))"
  let ?s1 = "(queryAPI_enter ''0'' 1 (init\<lparr>queue_waiting := tl VALID_CHARACTERS,
               queue_intervalCount := Suc (queue_intervalCount init),
               visitedPrefixes := insert ''0'' (visitedPrefixes init)\<rparr>))
            \<lparr>queue_running := queue_running init @ [?t]\<rparr>"
  let ?s2 = "(snd (queryAPI_settle ?r 1 ?s1))
            \<lparr>queue_running := remove1 ?t (queue_running ?s1) @ [AwaitResume ''0'' (Array [''0x''])]\<rparr>"
  let ?s3 = "(processPrefix_resume ''0'' [''0x''] ?s2)
            \<lparr>queue_running := remove1 (AwaitResume ''0'' (Array [''0x''])) (queue_running ?s2)
                                @ [AwaitFinalDelay ''0'']\<rparr>"
  let ?es = "[Start, Settle ?t ?r, Resume (AwaitResume ''0'' (Array [''0x'']))]"
  let ?f = "loaded\<lparr>queue_running := [AwaitResponse ''c'' 6]\<rparr>"
  let ?f1 = "(snd (queryAPI_settle RequestError 6 ?f))
            \<lparr>queue_running := remove1 (AwaitResponse ''c'' 6) (queue_running ?f)
                                @ [AwaitResume ''c'' (Array [])]\<rparr>"
  let ?f2 = "(processPrefix_resume ''c'' [] ?f1)
            \<lparr>queue_running := remove1 (AwaitResume ''c'' (Array [])) (queue_running ?f1)
                                @ [AwaitFinalDelay ''c'']\<rparr>"
  let ?fs = "[Settle (AwaitResponse ''c'' 6) RequestError, Resume (AwaitResume ''c'' (Array []))]"
  have 1: "step Start init = Some ?s1"
    by (rule step_Start_new) (simp_all add: init_fields)
  have 2: "step (Settle ?t ?r) ?s1 = Some ?s2"
    by (rule step_Settle_return) (simp_all add: queryAPI_settle_def)
  have 3: "step (Resume (AwaitResume ''0'' (Array [''0x'']))) ?s2 = Some ?s3"
    by (rule step_Resume) simp
  have run: "run ?es init = Some ?s3"
    by (simp only: run.simps 1 2 3 option.case)
  have ans: "(''0'', [''0x'']) \<in> set (answers ?s3)"
    by simp
  have f1: "step (Settle (AwaitResponse ''c'' 6) RequestError) ?f = Some ?f1"
    by (rule step_Settle_return) (simp_all add: queryAPI_settle_def)
  have f2: "step (Resume (AwaitResume ''c'' (Array []))) ?f1 = Some ?f2"
    by (rule step_Resume) simp
  have f: "run ?fs ?f = Some ?f2"
    by (simp only: run.simps f1 f2 option.case)
  have "length [''ab''] < MAX_RESULTS_PER_QUERY" and "length [''0x''] < MAX_RESULTS_PER_QUERY"
    and "AwaitResponse ''c'' 6 \<in> set (queue_running ?f)" and "(5::nat) < 6"
    and "''a'' \<in> set VALID_CHARACTERS"
    by (simp_all add: MAX_RESULTS_PER_QUERY_def VALID_CHARACTERS_def)
  with run ans f
    leaf_pruning [where results = "[''ab'']" and prefix = "''a''" and s = loaded
      and p = "''c''" and attempt = 6 and t = ?f and t' = ?f2
      and es = ?es and u = ?s3 and q = "''0''" and answer = "[''0x'']"
      and c = "''a''"]
  have "queue_waiting (processPrefix_resume ''a'' [''ab''] loaded) = queue_waiting loaded"
    and "(''c'', []) \<in> set (answers ?f2) \<and> added ?f2 = added ?f"
    and "''0'' @ ''a'' \<notin> set (added ?s3)"
    by blast+
  moreover have "added ?f = []" by (simp add: loaded_def)
  ultimately show ?thesis
    using run ans f by auto
qed

section \<open>What queue.add starts\<close>

lemma tryToStartAnother_full:
  "\<not> (doesIntervalAllowAnother s \<and> doesConcurrentAllowAnother s) \<Longrightarrow> tryToStartAnother s = s"
  by (cases "queue_waiting s") (auto simp add: tryToStartAnother_def)

lemma allowAnother_queue_add [simp]:
  "doesIntervalAllowAnother (queue_add p s) = doesIntervalAllowAnother s"
  "doesConcurrentAllowAnother (queue_add p s) = doesConcurrentAllowAnother s"
  by (simp_all add: doesIntervalAllowAnother_def doesConcurrentAllowAnother_def queue_add_def)

lemma PQueue_add_full:
  "\<not> (doesIntervalAllowAnother s \<and> doesConcurrentAllowAnother s) \<Longrightarrow>
   PQueue_add p s = queue_add p s"
  by (simp add: PQueue_add_def tryToStartAnother_full)

lemma PQueue_add_start:
  assumes "queue_waiting s = []" and "doesIntervalAllowAnother s"
    and "doesConcurrentAllowAnother s" and "p \<notin> visitedPrefixes s"
  shows "PQueue_add p s =
     (queryAPI_enter p 1 (s\<lparr>queue_intervalCount := Suc (queue_intervalCount s),
         visitedPrefixes := insert p (visitedPrefixes s), added := added s @ [p]\<rparr>))
       \<lparr>queue_running := queue_running s @ [AwaitResponse p 1]\<rparr>"
  using assms
  by (simp add: PQueue_add_def tryToStartAnother_def queue_add_def PQueue_run_new
      doesIntervalAllowAnother_def doesConcurrentAllowAnother_def queryAPI_enter_def)

lemma PQueue_add_behind:
  assumes "queue_waiting s = h # W"
  shows "visitedPrefixes (PQueue_add p s) \<subseteq> insert h (visitedPrefixes s)"
    and "p \<in> set (queue_waiting (PQueue_add p s))"
  using assms
  by (auto simp add: PQueue_add_def tryToStartAnother_def queue_add_def PQueue_run_def
      processPrefix_enter_def queryAPI_enter_def)

text \<open>
  While the queue has room, each \<open>queue.add\<close> on an empty queue starts the task it adds;
  once the running tasks are as many as the concurrency, it only adds it.
\<close>

lemma PQueue_adds_start:
  assumes "queue_waiting s = []" and "distinct cs" and "set cs \<inter> visitedPrefixes s = {}"
    and "queue_intervalCount s + length cs \<le> INTERVAL_CAP"
    and "int (length (queue_running s) + length cs) \<le> queue_concurrency s"
  shows "foldl (\<lambda>s char. PQueue_add char s) s cs =
     s\<lparr>totalRequests := totalRequests s + length cs,
       visitedPrefixes := visitedPrefixes s \<union> set cs,
       queue_intervalCount := queue_intervalCount s + length cs,
       queue_running := queue_running s @ map (\<lambda>c. AwaitResponse c 1) cs,
       added := added s @ cs,
       requests := requests s @ map (\<lambda>c. (c, 1)) cs\<rparr>"
  using assms
proof (induction cs arbitrary: s)
  case Nil
  show ?case by simp
next
  case (Cons c cs)
  let ?s1 = "(queryAPI_enter c 1 (s\<lparr>queue_intervalCount := Suc (queue_intervalCount s),
         visitedPrefixes := insert c (visitedPrefixes s), added := added s @ [c]\<rparr>))
       \<lparr>queue_running := queue_running s @ [AwaitResponse c 1]\<rparr>"
  have 1: "PQueue_add c s = ?s1"
    using Cons.prems
    by (intro PQueue_add_start)
       (simp_all add: doesIntervalAllowAnother_def doesConcurrentAllowAnother_def)
  have "foldl (\<lambda>s char. PQueue_add char s) ?s1 cs =
     ?s1\<lparr>totalRequests := totalRequests ?s1 + length cs,
       visitedPrefixes := visitedPrefixes ?s1 \<union> set cs,
       queue_intervalCount := queue_intervalCount ?s1 + length cs,
       queue_running := queue_running ?s1 @ map (\<lambda>c. AwaitResponse c 1) cs,
       added := added ?s1 @ cs,
       requests := requests ?s1 @ map (\<lambda>c. (c, 1)) cs\<rparr>"
    using Cons.prems by (intro Cons.IH) auto
  then show ?case
    by (simp add: 1 queryAPI_enter_def)
qed

lemma PQueue_adds_full:
  assumes "\<not> doesConcurrentAllowAnother s"
  shows "foldl (\<lambda>s char. PQueue_add char s) s cs =
     s\<lparr>queue_waiting := queue_waiting s @ cs, added := added s @ cs\<rparr>"
  using assms
proof (induction cs arbitrary: s)
  case Nil
  show ?case by simp
next
  case (Cons c cs)
  have 1: "PQueue_add c s = queue_add c s"
    using Cons.prems by (simp add: PQueue_add_full)
  have "foldl (\<lambda>s char. PQueue_add char s) (queue_add c s) cs =
     (queue_add c s)\<lparr>queue_waiting := queue_waiting (queue_add c s) @ cs,
                      added := added (queue_add c s) @ cs\<rparr>"
    using Cons.prems by (intro Cons.IH) simp
  then show ?case
    by (simp add: 1 queue_add_def)
qed

lemma run_Starts:
  assumes "queue_waiting s = cs @ W" and "distinct cs" and "set cs \<inter> visitedPrefixes s = {}"
  shows "run (replicate (length cs) Start) s =
     Some (s\<lparr>totalRequests := totalRequests s + length cs,
             visitedPrefixes := visitedPrefixes s \<union> set cs,
             queue_intervalCount := queue_intervalCount s + length cs,
             queue_waiting := W,
             queue_running := queue_running s @ map (\<lambda>c. AwaitResponse c 1) cs,
             requests := requests s @ map (\<lambda>c. (c, 1)) cs\<rparr>)"
  using assms
proof (induction cs arbitrary: s)
  case Nil
  then show ?case by simp
next
  case (Cons c cs)
  let ?s1 = "(queryAPI_enter c 1 (s\<lparr>queue_waiting := cs @ W,
               queue_intervalCount := Suc (queue_intervalCount s),
               visitedPrefixes := insert c (visitedPrefixes s)\<rparr>))
            \<lparr>queue_running := queue_running s @ [AwaitResponse c 1]\<rparr>"
  have 1: "step Start s = Some ?s1"
    using Cons.prems by (intro step_Start_new) auto
  have "run (replicate (length cs) Start) ?s1 =
     Some (?s1\<lparr>totalRequests := totalRequests ?s1 + length cs,
             visitedPrefixes := visitedPrefixes ?s1 \<union> set cs,
             queue_intervalCount := queue_intervalCount ?s1 + length cs,
             queue_waiting := W,
             queue_running := queue_running ?s1 @ map (\<lambda>c. AwaitResponse c 1) cs,
             requests := requests ?s1 @ map (\<lambda>c. (c, 1)) cs\<rparr>)"
    using Cons.prems by (intro Cons.IH) auto
  then show ?case
    by (simp add: 1 queryAPI_enter_def del: step.simps)
qed

text \<open>
  The state in which \<open>extractAllNames\<close> waits for the queue: the tasks of the first 26
  elements of the alphabet run, each with its first request issued, and the other 14
  wait.
\<close>

lemma extractAllNames_enter_eq:
  "extractAllNames_enter =
     loaded\<lparr>totalRequests := 26,
       visitedPrefixes := set (take 26 VALID_CHARACTERS),
       queue_intervalCount := 26,
       queue_waiting := drop 26 VALID_CHARACTERS,
       queue_running := map (\<lambda>c. AwaitResponse c 1) (take 26 VALID_CHARACTERS),
       added := VALID_CHARACTERS,
       requests := map (\<lambda>c. (c, 1)) (take 26 VALID_CHARACTERS)\<rparr>"
proof -
  let ?first = "take 26 VALID_CHARACTERS" and ?last = "drop 26 VALID_CHARACTERS"
  let ?s1 = "loaded\<lparr>totalRequests := totalRequests loaded + length ?first,
       visitedPrefixes := visitedPrefixes loaded \<union> set ?first,
       queue_intervalCount := queue_intervalCount loaded + length ?first,
       queue_running := queue_running loaded @ map (\<lambda>c. AwaitResponse c 1) ?first,
       added := added loaded @ ?first,
       requests := requests loaded @ map (\<lambda>c. (c, 1)) ?first\<rparr>"
  have len: "length ?first = 26"
    by (simp add: length_VALID_CHARACTERS)
  have "extractAllNames_enter =
        foldl (\<lambda>s char. PQueue_add char s)
          (foldl (\<lambda>s char. PQueue_add char s) loaded ?first) ?last"
    unfolding extractAllNames_enter_def
    by (simp only: foldl_append [symmetric] append_take_drop_id)
  also have "foldl (\<lambda>s char. PQueue_add char s) loaded ?first = ?s1"
    using distinct_VALID_CHARACTERS
    by (intro PQueue_adds_start) (simp_all add: len loaded_def INTERVAL_CAP_def)
  also have "foldl (\<lambda>s char. PQueue_add char s) ?s1 ?last =
        ?s1\<lparr>queue_waiting := queue_waiting ?s1 @ ?last, added := added ?s1 @ ?last\<rparr>"
    by (intro PQueue_adds_full)
       (simp add: doesConcurrentAllowAnother_def length_VALID_CHARACTERS loaded_def)
  finally show ?thesis
    by (simp add: length_VALID_CHARACTERS loaded_def)
qed

lemma extractAllNames_enter_reached:
  "run (replicate 26 Start) init = Some extractAllNames_enter"
proof -
  let ?first = "take 26 VALID_CHARACTERS" and ?last = "drop 26 VALID_CHARACTERS"
  have len: "length ?first = 26"
    by (simp add: length_VALID_CHARACTERS)
  have "run (replicate (length ?first) Start) init =
     Some (init\<lparr>totalRequests := totalRequests init + length ?first,
             visitedPrefixes := visitedPrefixes init \<union> set ?first,
             queue_intervalCount := queue_intervalCount init + length ?first,
             queue_waiting := ?last,
             queue_running := queue_running init @ map (\<lambda>c. AwaitResponse c 1) ?first,
             requests := requests init @ map (\<lambda>c. (c, 1)) ?first\<rparr>)"
    using distinct_VALID_CHARACTERS
    by (intro run_Starts) (simp_all add: init_eq loaded_def)
  then show ?thesis
    by (simp add: length_VALID_CHARACTERS extractAllNames_enter_eq init_eq loaded_def
        del: run.simps replicate.simps)
qed

lemma extractAllNames_enter_full:
  "\<not> doesConcurrentAllowAnother extractAllNames_enter"
  by (simp add: doesConcurrentAllowAnother_def extractAllNames_enter_eq loaded_def
      length_VALID_CHARACTERS)

lemma VALID_CHARACTERS_split:
  "take 26 VALID_CHARACTERS = map (\<lambda>c. [c]) ''0123456789abcdefghijklmnop''"
  "drop 26 VALID_CHARACTERS = map (\<lambda>c. [c]) ''qrstuvwxyz+.-'' @ [''%20'']"
  by (simp_all add: VALID_CHARACTERS_def)

section \<open>C2: one first request for each prefix\<close>

text \<open>
  When \<open>extractAllNames\<close> has added the forty first prefixes, 26 tasks run, as many as
  the concurrency of the queue, and 14 wait: the prefix \<open>q\<close> has been added and is not in
  \<open>visitedPrefixes\<close>. In that state the body of the expansion loop on a prefix leaves it
  out of \<open>visitedPrefixes\<close>, and run twice on the same prefix it puts two tasks for it in
  the queue.
\<close>

theorem enqueue_at_full_queue_counterexample:
  "length (queue_running extractAllNames_enter) = 26
   \<and> queue_concurrency extractAllNames_enter = 26
   \<and> queue_intervalCount extractAllNames_enter = 26
   \<and> length (queue_waiting extractAllNames_enter) = 14
   \<and> totalRequests extractAllNames_enter = 26
   \<and> ''q'' \<in> set (added extractAllNames_enter)
   \<and> ''q'' \<in> set (queue_waiting extractAllNames_enter)
   \<and> ''q'' \<notin> visitedPrefixes extractAllNames_enter
   \<and> ''00'' \<notin> visitedPrefixes (enqueue ''00'' extractAllNames_enter)
   \<and> queue_waiting (enqueue ''00'' (enqueue ''00'' extractAllNames_enter))
       = queue_waiting extractAllNames_enter @ [''00'', ''00'']"
proof -
  let ?F = extractAllNames_enter
  have full: "\<not> (doesIntervalAllowAnother ?F \<and> doesConcurrentAllowAnother ?F)"
    using extractAllNames_enter_full by simp
  have visited: "visitedPrefixes ?F = set (take 26 VALID_CHARACTERS)"
    and waiting: "queue_waiting ?F = drop 26 VALID_CHARACTERS"
    and others: "length (queue_running ?F) = 26" "queue_concurrency ?F = 26"
      "queue_intervalCount ?F = 26" "totalRequests ?F = 26" "added ?F = VALID_CHARACTERS"
    by (simp_all add: extractAllNames_enter_eq loaded_def length_VALID_CHARACTERS)
  have new: "''00'' \<notin> visitedPrefixes ?F"
    by (simp add: visited VALID_CHARACTERS_split)
  then have 1: "enqueue ''00'' ?F = queue_add ''00'' ?F"
    using full by (simp add: enqueue_def PQueue_add_full)
  have "\<not> (doesIntervalAllowAnother (queue_add ''00'' ?F)
           \<and> doesConcurrentAllowAnother (queue_add ''00'' ?F))"
    using full by simp
  moreover have "''00'' \<notin> visitedPrefixes (queue_add ''00'' ?F)"
    using new by (simp add: queue_add_def)
  ultimately have 2: "enqueue ''00'' (queue_add ''00'' ?F) = queue_add ''00'' (queue_add ''00'' ?F)"
    by (simp add: enqueue_def PQueue_add_full)
  have 3: "''00'' \<notin> visitedPrefixes (enqueue ''00'' ?F)"
    and 4: "queue_waiting (enqueue ''00'' (enqueue ''00'' ?F)) = queue_waiting ?F @ [''00'', ''00'']"
    using new by (simp_all only: 1 2) (simp_all add: queue_add_def)
  have 5: "''q'' \<in> set (added ?F)" "''q'' \<in> set (queue_waiting ?F)"
    "''q'' \<notin> visitedPrefixes ?F" "length (queue_waiting ?F) = 14"
    by (simp_all add: others visited waiting VALID_CHARACTERS_split) (simp add: VALID_CHARACTERS_def)
  show ?thesis
    using others(1,2,3,4) 3 4 5 by (simp only: simp_thms)
qed

text \<open>
  C2, as amended. A prefix enters \<open>visitedPrefixes\<close> when its task starts, at the entry of
  \<open>processPrefix\<close>, which then issues the first request for it; started on a prefix that
  is already there, \<open>processPrefix\<close> returns at once. The body of the expansion loop does
  nothing on a visited prefix; on another it adds a task, and the queue tries to start its
  oldest waiting task. When no task is waiting and the queue has room (it has started
  fewer tasks in the interval than the cap of 80, and fewer tasks run than its
  concurrency), the added task starts at once: the prefix is visited and running when the
  body returns, and a second run of the body on it does nothing. When another task is
  waiting before it, the prefix is waiting and not visited when the body returns; so it is
  when the queue has no room, and then a second run of the body on it adds a second task.
  The state in which \<open>extractAllNames\<close> waits for the queue is reached by 26 starts of the
  run. In every state a run reaches, the first requests are for pairwise different
  prefixes, these prefixes are the visited ones, and no prefix has been given twice to
  \<open>queue.add\<close>.
\<close>

theorem at_most_once_dispatch:
  "(q \<in> visitedPrefixes s \<longrightarrow> enqueue q s = s \<and> processPrefix_enter q s = (s, None))
   \<and> (p \<notin> visitedPrefixes s \<longrightarrow>
        processPrefix_enter p s =
          (queryAPI_enter p 1 (s\<lparr>visitedPrefixes := insert p (visitedPrefixes s)\<rparr>),
           Some (AwaitResponse p 1)))
   \<and> (p \<notin> visitedPrefixes s \<and> queue_waiting s = []
        \<and> queue_intervalCount s < INTERVAL_CAP
        \<and> int (length (queue_running s)) < queue_concurrency s \<longrightarrow>
        p \<in> visitedPrefixes (enqueue p s)
        \<and> queue_running (enqueue p s) = queue_running s @ [AwaitResponse p 1]
        \<and> queue_waiting (enqueue p s) = []
        \<and> queue_intervalCount (enqueue p s) = queue_intervalCount s + 1
        \<and> totalRequests (enqueue p s) = totalRequests s + 1
        \<and> enqueue p (enqueue p s) = enqueue p s)
   \<and> (p \<notin> visitedPrefixes s \<and> queue_waiting s = h # W \<and> h \<noteq> p \<longrightarrow>
        p \<notin> visitedPrefixes (enqueue p s) \<and> p \<in> set (queue_waiting (enqueue p s)))
   \<and> (p \<notin> visitedPrefixes s
        \<and> \<not> (queue_intervalCount s < INTERVAL_CAP
              \<and> int (length (queue_running s)) < queue_concurrency s) \<longrightarrow>
        visitedPrefixes (enqueue p s) = visitedPrefixes s
        \<and> queue_running (enqueue p s) = queue_running s
        \<and> queue_waiting (enqueue p s) = queue_waiting s @ [p]
        \<and> queue_waiting (enqueue p (enqueue p s)) = queue_waiting s @ [p, p])
   \<and> INTERVAL_CAP = 80
   \<and> run (replicate 26 Start) init = Some extractAllNames_enter
   \<and> (run es init = Some s' \<longrightarrow>
        distinct (first_requests s') \<and> set (first_requests s') = visitedPrefixes s'
        \<and> distinct (added s'))"
proof -
  have v: "q \<in> visitedPrefixes s \<longrightarrow> enqueue q s = s \<and> processPrefix_enter q s = (s, None)"
    by (simp add: enqueue_def processPrefix_enter_def)
  have n: "p \<notin> visitedPrefixes s \<longrightarrow>
        processPrefix_enter p s =
          (queryAPI_enter p 1 (s\<lparr>visitedPrefixes := insert p (visitedPrefixes s)\<rparr>),
           Some (AwaitResponse p 1))"
    by (simp add: processPrefix_enter_def)
  have a: "p \<notin> visitedPrefixes s \<and> queue_waiting s = []
        \<and> queue_intervalCount s < INTERVAL_CAP
        \<and> int (length (queue_running s)) < queue_concurrency s \<longrightarrow>
        p \<in> visitedPrefixes (enqueue p s)
        \<and> queue_running (enqueue p s) = queue_running s @ [AwaitResponse p 1]
        \<and> queue_waiting (enqueue p s) = []
        \<and> queue_intervalCount (enqueue p s) = queue_intervalCount s + 1
        \<and> totalRequests (enqueue p s) = totalRequests s + 1
        \<and> enqueue p (enqueue p s) = enqueue p s"
  proof
    assume that: "p \<notin> visitedPrefixes s \<and> queue_waiting s = []
        \<and> queue_intervalCount s < INTERVAL_CAP
        \<and> int (length (queue_running s)) < queue_concurrency s"
    then have "PQueue_add p s =
     (queryAPI_enter p 1 (s\<lparr>queue_intervalCount := Suc (queue_intervalCount s),
         visitedPrefixes := insert p (visitedPrefixes s), added := added s @ [p]\<rparr>))
       \<lparr>queue_running := queue_running s @ [AwaitResponse p 1]\<rparr>"
      by (intro PQueue_add_start)
         (simp_all add: doesIntervalAllowAnother_def doesConcurrentAllowAnother_def)
    with that have 1: "enqueue p s =
     (queryAPI_enter p 1 (s\<lparr>queue_intervalCount := Suc (queue_intervalCount s),
         visitedPrefixes := insert p (visitedPrefixes s), added := added s @ [p]\<rparr>))
       \<lparr>queue_running := queue_running s @ [AwaitResponse p 1]\<rparr>"
      by (simp add: enqueue_def)
    have 2: "enqueue p (enqueue p s) = enqueue p s"
      by (subst (1) enqueue_def) (simp add: 1)
    from that show "p \<in> visitedPrefixes (enqueue p s)
        \<and> queue_running (enqueue p s) = queue_running s @ [AwaitResponse p 1]
        \<and> queue_waiting (enqueue p s) = []
        \<and> queue_intervalCount (enqueue p s) = queue_intervalCount s + 1
        \<and> totalRequests (enqueue p s) = totalRequests s + 1
        \<and> enqueue p (enqueue p s) = enqueue p s"
      by (simp add: 2) (simp add: 1)
  qed
  have b: "p \<notin> visitedPrefixes s \<and> queue_waiting s = h # W \<and> h \<noteq> p \<longrightarrow>
        p \<notin> visitedPrefixes (enqueue p s) \<and> p \<in> set (queue_waiting (enqueue p s))"
    using PQueue_add_behind [of s h W p]
    by (auto simp add: enqueue_def)
  have c: "p \<notin> visitedPrefixes s
        \<and> \<not> (queue_intervalCount s < INTERVAL_CAP
              \<and> int (length (queue_running s)) < queue_concurrency s) \<longrightarrow>
        visitedPrefixes (enqueue p s) = visitedPrefixes s
        \<and> queue_running (enqueue p s) = queue_running s
        \<and> queue_waiting (enqueue p s) = queue_waiting s @ [p]
        \<and> queue_waiting (enqueue p (enqueue p s)) = queue_waiting s @ [p, p]"
  proof
    assume "p \<notin> visitedPrefixes s
        \<and> \<not> (queue_intervalCount s < INTERVAL_CAP
              \<and> int (length (queue_running s)) < queue_concurrency s)"
    then have a: "p \<notin> visitedPrefixes s"
      and full: "\<not> (doesIntervalAllowAnother s \<and> doesConcurrentAllowAnother s)"
      by (simp_all add: doesIntervalAllowAnother_def doesConcurrentAllowAnother_def)
    then have 1: "enqueue p s = queue_add p s"
      by (simp add: enqueue_def PQueue_add_full)
    from full have "\<not> (doesIntervalAllowAnother (queue_add p s)
           \<and> doesConcurrentAllowAnother (queue_add p s))"
      by simp
    moreover from a have "p \<notin> visitedPrefixes (queue_add p s)"
      by (simp add: queue_add_def)
    ultimately have 2: "enqueue p (queue_add p s) = queue_add p (queue_add p s)"
      by (simp add: enqueue_def PQueue_add_full)
    show "visitedPrefixes (enqueue p s) = visitedPrefixes s
        \<and> queue_running (enqueue p s) = queue_running s
        \<and> queue_waiting (enqueue p s) = queue_waiting s @ [p]
        \<and> queue_waiting (enqueue p (enqueue p s)) = queue_waiting s @ [p, p]"
      by (simp only: 1 2) (simp add: queue_add_def)
  qed
  have r: "run es init = Some s' \<longrightarrow>
        distinct (first_requests s') \<and> set (first_requests s') = visitedPrefixes s'
        \<and> distinct (added s')"
  proof
    assume run: "run es init = Some s'"
    from run_dispatch_inv [OF run] have "distinct (first_requests s')"
      and "set (first_requests s') = visitedPrefixes s'"
      by (simp_all add: dispatch_inv_def)
    moreover from run_tree_inv [OF run] have "distinct (added s')"
      using tree_ok_parts(1) by (simp add: tree_inv_def)
    ultimately show "distinct (first_requests s') \<and> set (first_requests s') = visitedPrefixes s'
        \<and> distinct (added s')" by simp
  qed
  show ?thesis
    by (intro conjI) (fact v n a b c r extractAllNames_enter_reached INTERVAL_CAP_def)+
qed

theorem at_most_once_dispatch_witness:
  "''0'' \<in> visitedPrefixes extractAllNames_enter
   \<and> enqueue ''0'' extractAllNames_enter = extractAllNames_enter
   \<and> ''0'' \<notin> visitedPrefixes loaded \<and> queue_waiting loaded = []
   \<and> queue_intervalCount loaded < INTERVAL_CAP
   \<and> int (length (queue_running loaded)) < queue_concurrency loaded
   \<and> snd (processPrefix_enter ''0'' loaded) = Some (AwaitResponse ''0'' 1)
   \<and> ''0'' \<in> visitedPrefixes (enqueue ''0'' loaded)
   \<and> queue_running (enqueue ''0'' loaded) = [AwaitResponse ''0'' 1]
   \<and> totalRequests (enqueue ''0'' loaded) = 1
   \<and> enqueue ''0'' (enqueue ''0'' loaded) = enqueue ''0'' loaded
   \<and> ''00'' \<notin> visitedPrefixes extractAllNames_enter
   \<and> queue_waiting extractAllNames_enter = ''q'' # tl (drop 26 VALID_CHARACTERS)
   \<and> ''q'' \<noteq> ''00''
   \<and> \<not> (queue_intervalCount extractAllNames_enter < INTERVAL_CAP
         \<and> int (length (queue_running extractAllNames_enter))
             < queue_concurrency extractAllNames_enter)
   \<and> ''00'' \<notin> visitedPrefixes (enqueue ''00'' extractAllNames_enter)
   \<and> ''00'' \<in> set (queue_waiting (enqueue ''00'' extractAllNames_enter))
   \<and> queue_waiting (enqueue ''00'' (enqueue ''00'' extractAllNames_enter))
       = queue_waiting extractAllNames_enter @ [''00'', ''00'']
   \<and> run (replicate 26 Start) init = Some extractAllNames_enter
   \<and> distinct (first_requests extractAllNames_enter)
   \<and> set (first_requests extractAllNames_enter) = visitedPrefixes extractAllNames_enter
   \<and> visitedPrefixes extractAllNames_enter = set (take 26 VALID_CHARACTERS)
   \<and> distinct (added extractAllNames_enter)"
proof -
  let ?F = extractAllNames_enter
  have visited: "visitedPrefixes ?F = set (take 26 VALID_CHARACTERS)"
    and waiting: "queue_waiting ?F = ''q'' # tl (drop 26 VALID_CHARACTERS)"
    by (simp_all add: extractAllNames_enter_eq loaded_def VALID_CHARACTERS_split)
  have in0: "''0'' \<in> visitedPrefixes ?F" and new: "''00'' \<notin> visitedPrefixes ?F"
    by (simp_all add: visited VALID_CHARACTERS_split)
  have full: "\<not> (queue_intervalCount ?F < INTERVAL_CAP
         \<and> int (length (queue_running ?F)) < queue_concurrency ?F)"
    using extractAllNames_enter_full by (simp add: doesConcurrentAllowAnother_def)
  have room: "''0'' \<notin> visitedPrefixes loaded" "queue_waiting loaded = []"
    "queue_intervalCount loaded < INTERVAL_CAP"
    "int (length (queue_running loaded)) < queue_concurrency loaded"
    by (simp_all add: loaded_def INTERVAL_CAP_def)
  have running: "queue_running loaded = []" "totalRequests loaded = 0"
    by (simp_all add: loaded_def)
  have ne: "''q'' \<noteq> ''00''" by simp
  note a = at_most_once_dispatch [where q = "''0''" and s = ?F and p = "''00''"
      and h = "''q''" and W = "tl (drop 26 VALID_CHARACTERS)"
      and es = "replicate 26 Start" and s' = ?F]
  note b = at_most_once_dispatch [where q = "''0''" and s = loaded and p = "''0''"
      and h = "''q''" and W = "[]" and es = "[]" and s' = init]
  from a in0 have 1: "enqueue ''0'' ?F = ?F" by blast
  from b room have 2: "snd (processPrefix_enter ''0'' loaded) = Some (AwaitResponse ''0'' 1)"
    and 3: "''0'' \<in> visitedPrefixes (enqueue ''0'' loaded)"
    and 4: "queue_running (enqueue ''0'' loaded) = [AwaitResponse ''0'' 1]"
    and 5: "enqueue ''0'' (enqueue ''0'' loaded) = enqueue ''0'' loaded"
    and tot: "totalRequests (enqueue ''0'' loaded) = 1"
    by (simp_all add: running del: run.simps replicate.simps)
  from a new waiting ne have 6: "''00'' \<notin> visitedPrefixes (enqueue ''00'' ?F)"
    and 7: "''00'' \<in> set (queue_waiting (enqueue ''00'' ?F))"
    by blast+
  from a new full have 8: "queue_waiting (enqueue ''00'' (enqueue ''00'' ?F))
       = queue_waiting ?F @ [''00'', ''00'']"
    by blast
  from a have 9: "run (replicate 26 Start) init = Some ?F" by blast
  with a have 10: "distinct (first_requests ?F)"
    "set (first_requests ?F) = visitedPrefixes ?F" "distinct (added ?F)"
    by blast+
  show ?thesis
    using in0 1 room 2 3 4 5 tot new waiting ne full 6 7 8 9 10 visited
    by (simp only: simp_thms)
qed

section \<open>An example of a run\<close>

lemma run_append:
  "run (es @ fs) s = (case run es s of None \<Rightarrow> None | Some s' \<Rightarrow> run fs s')"
  by (induction es arbitrary: s) (simp_all split: option.splits)

lemma foldl_set_add_fresh:
  "distinct ys \<Longrightarrow> set ys \<inter> set xs = {} \<Longrightarrow>
   foldl (\<lambda>names name. set_add name names) xs ys = xs @ ys"
proof (induction ys arbitrary: xs)
  case Nil
  show ?case by simp
next
  case (Cons y ys)
  from Cons.prems have "set_add y xs = xs @ [y]"
    by (simp add: set_add_def)
  moreover have "foldl (\<lambda>names name. set_add name names) (xs @ [y]) ys = (xs @ [y]) @ ys"
    using Cons.prems by (intro Cons.IH) auto
  ultimately show ?case by simp
qed

lemma takeWhile_underscores:
  "CHR ''_'' \<notin> set q \<Longrightarrow>
   takeWhile (\<lambda>c. c \<noteq> CHR ''_'') (q @ replicate (Suc n) (CHR ''_'')) = q"
  by (induction q) auto

lemma names_of_eq:
  assumes "CHR ''_'' \<notin> set p" and "CHR ''_'' \<notin> set p'"
    and "p @ replicate (Suc k) (CHR ''_'') = p' @ replicate (Suc k') (CHR ''_'')"
  shows "p = p' \<and> k = k'"
proof -
  from takeWhile_underscores [OF assms(1), of k] takeWhile_underscores [OF assms(2), of k']
    assms(3)
  have "p = p'"
    by (simp del: replicate.simps)
  with assms(3) have "length (replicate (Suc k) (CHR ''_'')) = length (replicate (Suc k') (CHR ''_''))"
    by (simp del: replicate.simps)
  with \<open>p = p'\<close> show ?thesis by simp
qed

lemma length_names_of: "length (names_of p) = 14"
  by (simp add: names_of_def)

lemma distinct_names_of: "distinct (names_of p)"
proof -
  have "inj_on (\<lambda>k. p @ replicate (Suc k) (CHR ''_'')) A" for A
  proof (rule inj_onI)
    fix k k'
    assume "p @ replicate (Suc k) (CHR ''_'') = p @ replicate (Suc k') (CHR ''_'')"
    then have "length (replicate (Suc k) (CHR ''_'')) = length (replicate (Suc k') (CHR ''_''))"
      by (simp del: replicate.simps)
    then show "k = k'" by simp
  qed
  then show ?thesis
    unfolding names_of_def by (simp only: distinct_map distinct_upt simp_thms)
qed

lemma names_of_disjoint:
  assumes "CHR ''_'' \<notin> set p" and "CHR ''_'' \<notin> set p'" and "p \<noteq> p'"
  shows "set (names_of p) \<inter> set (names_of p') = {}"
proof -
  have False if "x \<in> set (names_of p)" and "x \<in> set (names_of p')" for x
  proof -
    from that(1) obtain k where "x = p @ replicate (Suc k) (CHR ''_'')"
      unfolding names_of_def by (auto simp del: replicate.simps)
    moreover from that(2) obtain k' where "x = p' @ replicate (Suc k') (CHR ''_'')"
      unfolding names_of_def by (auto simp del: replicate.simps)
    ultimately have "p @ replicate (Suc k) (CHR ''_'') = p' @ replicate (Suc k') (CHR ''_'')"
      by simp
    from names_of_eq [OF assms(1,2) this] assms(3) show False by simp
  qed
  then show ?thesis by blast
qed

lemma VALID_CHARACTERS_no_underscore:
  "p \<in> set VALID_CHARACTERS \<Longrightarrow> CHR ''_'' \<notin> set p"
  by (auto simp add: VALID_CHARACTERS_def)

lemma processPrefix_resume_names_of:
  assumes "set (names_of p) \<inter> set (discoveredNames s) = {}"
  shows "processPrefix_resume p (names_of p) s =
     maybeSaveProgress (s\<lparr>discoveredNames := discoveredNames s @ names_of p,
                          answers := answers s @ [(p, names_of p)]\<rparr>)"
  using assms
  by (simp add: processPrefix_resume_def Let_def length_names_of MAX_RESULTS_PER_QUERY_def
      foldl_set_add_fresh distinct_names_of)

lemma length_concat_names_of:
  "length (concat (map names_of ps)) = 14 * length ps"
  by (induction ps) (simp_all add: length_names_of)

lemma first_name: "p @ ''_'' \<in> set (names_of p)"
proof -
  have "p @ replicate (Suc 0) (CHR ''_'') \<in> (\<lambda>k. p @ replicate (Suc k) (CHR ''_'')) ` {0..<14}"
    by (rule imageI) simp
  then show ?thesis by (simp add: names_of_def)
qed

lemma names_of_others:
  assumes "CHR ''_'' \<notin> set p" and "\<forall>q \<in> set ps. CHR ''_'' \<notin> set q" and "p \<notin> set ps"
  shows "set (names_of p) \<inter> set (concat (map names_of ps)) = {}"
proof -
  have "set (names_of p) \<inter> set (names_of q) = {}" if "q \<in> set ps" for q
    using that assms by (intro names_of_disjoint) auto
  then show ?thesis by auto
qed

lemma processPrefix_continue_names_of:
  "set (names_of p) \<inter> set (discoveredNames s) = {} \<Longrightarrow>
   processPrefix_continue p (Array (names_of p)) s =
     Inr (maybeSaveProgress (s\<lparr>discoveredNames := discoveredNames s @ names_of p,
                               answers := answers s @ [(p, names_of p)]\<rparr>))"
  by (simp add: processPrefix_continue_def processPrefix_resume_names_of)

text \<open>
  The example run can happen, and writes three contents to the progress file: the first
  when \<open>processPrefix\<close> has gone on for 36 prefixes and 40 requests have been issued, the
  other two at the end.
\<close>

lemma example_run_written:
  "\<exists>u. run example_run init = Some u
      \<and> written u =
        [\<lparr> snap_totalRequests = 40, snap_totalNames = 504,
            snap_names = concat (map names_of (take 36 VALID_CHARACTERS)) \<rparr>,
         \<lparr> snap_totalRequests = 41, snap_totalNames = 560,
            snap_names = concat (map names_of VALID_CHARACTERS) \<rparr>,
         \<lparr> snap_totalRequests = 41, snap_totalNames = 560,
            snap_names = concat (map names_of VALID_CHARACTERS) \<rparr>]"
proof -
  have "run example_run init =
        run (concat (map (\<lambda>p. [respond p, Start, resume p]) (take 14 VALID_CHARACTERS))
           @ concat (map (\<lambda>p. [respond p, resume p]) (drop 14 (take 26 VALID_CHARACTERS)))
           @ concat (map (\<lambda>(b, p). [respond b, resume b, finish p])
               (zip (take 13 (drop 26 VALID_CHARACTERS)) (take 13 VALID_CHARACTERS)))
           @ [Settle (AwaitResponse ''%20'' 1) RequestError, finish ''d'']
           @ map finish (drop 14 (take 39 VALID_CHARACTERS))
           @ [Wake (AwaitDelay ''%20'' 2),
              Settle (AwaitResponse ''%20'' 2) (Response2xx (Body (Items (names_of ''%20'')))),
              resume ''%20'', finish ''%20'', Idle]) extractAllNames_enter"
    unfolding example_run_def
    by (simp only: run_append extractAllNames_enter_reached option.case)
  then show ?thesis
    by (simp add: extractAllNames_enter_eq respond_def resume_def finish_def loaded_def
        VALID_CHARACTERS_def PQueue_run_def processPrefix_enter_def queryAPI_enter_def
        queryAPI_settle_def adjustConcurrency_def processPrefix_continue_names_of
        names_of_disjoint maybeSaveProgress_def saveProgress_def length_names_of
        Int_Un_distrib CONCURRENCY_ADJUSTMENT_UP_def MIN_CONCURRENCY_def MAX_CONCURRENCY_def
        BASE_DELAY_MS_def)
qed

section \<open>C9: snapshots\<close>

lemma step_grows:
  assumes "step e s = Some s'"
  shows "set (discoveredNames s) \<subseteq> set (discoveredNames s') \<and> totalRequests s \<le> totalRequests s'"
proof (cases e)
  case Start
  with assms have "step Start s = Some s'" by simp
  then show ?thesis by (cases rule: step_Start_cases) simp_all
next
  case (Settle t r)
  with assms have "step (Settle t r) s = Some s'" by simp
  then show ?thesis by (cases rule: step_Settle_cases) simp_all
next
  case (Resume t)
  with assms have "step (Resume t) s = Some s'" by simp
  then show ?thesis
    by (cases rule: step_Resume_cases) (simp_all add: processPrefix_resume_names)
next
  case Interval
  with assms show ?thesis by auto
next
  case (Wake t)
  with assms have "step (Wake t) s = Some s'" by simp
  then show ?thesis by (cases rule: step_Wake_cases) simp_all
next
  case Tick
  with assms show ?thesis by auto
next
  case Idle
  with assms have "step Idle s = Some s'" by simp
  then show ?thesis by (cases rule: step_Idle_cases) simp_all
qed

text \<open>
  C9. Every content written to the progress file is the current state, \<open>totalRequests\<close>
  and the discovered names; no step of a run removes a discovered name or decreases
  \<open>totalRequests\<close>; and of two contents written in a run, the later has all the names
  of the earlier and at least its \<open>totalRequests\<close>.
\<close>

theorem snapshot_monotonicity:
  "written (saveProgress s) = written s @
     [\<lparr> snap_totalRequests = totalRequests s, snap_totalNames = length (discoveredNames s),
        snap_names = discoveredNames s \<rparr>]
   \<and> (step e t = Some t' \<longrightarrow>
        set (discoveredNames t) \<subseteq> set (discoveredNames t') \<and> totalRequests t \<le> totalRequests t')
   \<and> (run es init = Some u \<and> i < j \<and> j < length (written u) \<longrightarrow>
        set (snap_names (written u ! i)) \<subseteq> set (snap_names (written u ! j))
        \<and> snap_totalRequests (written u ! i) \<le> snap_totalRequests (written u ! j))"
proof (intro conjI impI)
  show "written (saveProgress s) = written s @
     [\<lparr> snap_totalRequests = totalRequests s, snap_totalNames = length (discoveredNames s),
        snap_names = discoveredNames s \<rparr>]"
    by simp
next
  assume "step e t = Some t'"
  from step_grows [OF this]
  show "set (discoveredNames t) \<subseteq> set (discoveredNames t')" and "totalRequests t \<le> totalRequests t'"
    by simp_all
next
  assume a: "run es init = Some u \<and> i < j \<and> j < length (written u)"
  then have "run es init = Some u" by blast
  then have "snapshot_inv u" by (rule run_snapshot_inv)
  then have "sorted_wrt snapshot_le (written u)"
    by (simp add: snapshot_inv_def)
  with a have "snapshot_le (written u ! i) (written u ! j)"
    by (simp add: sorted_wrt_nth_less)
  then show "set (snap_names (written u ! i)) \<subseteq> set (snap_names (written u ! j))"
    and "snap_totalRequests (written u ! i) \<le> snap_totalRequests (written u ! j)"
    by (simp_all add: snapshot_le_def)
qed

theorem snapshot_monotonicity_witness:
  "\<exists>u. run example_run init = Some u
      \<and> length (written u) = 3
      \<and> snap_totalRequests (written u ! 0) = 40 \<and> snap_totalNames (written u ! 0) = 504
      \<and> snap_totalRequests (written u ! 1) = 41 \<and> snap_totalNames (written u ! 1) = 560
      \<and> ''0_'' \<in> set (snap_names (written u ! 0))
      \<and> ''%20_'' \<notin> set (snap_names (written u ! 0))
      \<and> ''%20_'' \<in> set (snap_names (written u ! 1))
      \<and> set (snap_names (written u ! 0)) \<subseteq> set (snap_names (written u ! 1))
      \<and> snap_totalRequests (written u ! 0) \<le> snap_totalRequests (written u ! 1)
      \<and> (\<exists>t'. step Start init = Some t' \<and> totalRequests t' = 1
             \<and> totalRequests init \<le> totalRequests t'
             \<and> set (discoveredNames init) \<subseteq> set (discoveredNames t'))"
proof -
  let ?N0 = "concat (map names_of (take 36 VALID_CHARACTERS))"
  let ?N1 = "concat (map names_of VALID_CHARACTERS)"
  from example_run_written obtain u where run: "run example_run init = Some u"
    and w: "written u =
        [\<lparr> snap_totalRequests = 40, snap_totalNames = 504, snap_names = ?N0 \<rparr>,
         \<lparr> snap_totalRequests = 41, snap_totalNames = 560, snap_names = ?N1 \<rparr>,
         \<lparr> snap_totalRequests = 41, snap_totalNames = 560, snap_names = ?N1 \<rparr>]"
    by blast
  have names: "snap_names (written u ! 0) = ?N0" "snap_names (written u ! 1) = ?N1"
    and counts: "length (written u) = 3"
      "snap_totalRequests (written u ! 0) = 40" "snap_totalNames (written u ! 0) = 504"
      "snap_totalRequests (written u ! 1) = 41" "snap_totalNames (written u ! 1) = 560"
    by (simp_all add: w)
  have clean: "\<forall>q \<in> set (take 36 VALID_CHARACTERS). CHR ''_'' \<notin> set q"
    using VALID_CHARACTERS_no_underscore set_take_subset [of 36 VALID_CHARACTERS] by blast
  have "''0'' \<in> set (take 36 VALID_CHARACTERS)" and last: "''%20'' \<notin> set (take 36 VALID_CHARACTERS)"
    and "''%20'' \<in> set VALID_CHARACTERS"
    by (simp_all add: VALID_CHARACTERS_def)
  with first_name [of "''0''"] first_name [of "''%20''"]
  have in0: "''0_'' \<in> set ?N0" and in1: "''%20_'' \<in> set ?N1"
    by auto
  have "set (names_of ''%20'') \<inter> set ?N0 = {}"
    using clean last by (intro names_of_others) simp_all
  with first_name [of "''%20''"] have out: "''%20_'' \<notin> set ?N0"
    by auto
  let ?t1 = "(queryAPI_enter ''0'' 1 (init\<lparr>queue_waiting := tl VALID_CHARACTERS,
               queue_intervalCount := Suc (queue_intervalCount init),
               visitedPrefixes := insert ''0'' (visitedPrefixes init)\<rparr>))
            \<lparr>queue_running := queue_running init @ [AwaitResponse ''0'' 1]\<rparr>"
  have start: "step Start init = Some ?t1"
    by (rule step_Start_new) (simp_all add: init_fields)
  have one: "totalRequests ?t1 = 1"
    by (simp add: init_fields)
  from start snapshot_monotonicity [where e = Start and t = init and t' = ?t1]
  have "totalRequests init \<le> totalRequests ?t1
        \<and> set (discoveredNames init) \<subseteq> set (discoveredNames ?t1)"
    by (simp del: step.simps run.simps)
  with start one have first: "\<exists>t'. step Start init = Some t' \<and> totalRequests t' = 1
             \<and> totalRequests init \<le> totalRequests t'
             \<and> set (discoveredNames init) \<subseteq> set (discoveredNames t')"
    by blast
  from run counts(1) snapshot_monotonicity [where es = example_run and u = u and i = 0 and j = 1]
  have mono: "set (snap_names (written u ! 0)) \<subseteq> set (snap_names (written u ! 1))"
    "snap_totalRequests (written u ! 0) \<le> snap_totalRequests (written u ! 1)"
    by (simp_all del: step.simps run.simps)
  have "run example_run init = Some u
      \<and> length (written u) = 3
      \<and> snap_totalRequests (written u ! 0) = 40 \<and> snap_totalNames (written u ! 0) = 504
      \<and> snap_totalRequests (written u ! 1) = 41 \<and> snap_totalNames (written u ! 1) = 560
      \<and> ''0_'' \<in> set (snap_names (written u ! 0))
      \<and> ''%20_'' \<notin> set (snap_names (written u ! 0))
      \<and> ''%20_'' \<in> set (snap_names (written u ! 1))
      \<and> set (snap_names (written u ! 0)) \<subseteq> set (snap_names (written u ! 1))
      \<and> snap_totalRequests (written u ! 0) \<le> snap_totalRequests (written u ! 1)
      \<and> (\<exists>t'. step Start init = Some t' \<and> totalRequests t' = 1
             \<and> totalRequests init \<le> totalRequests t'
             \<and> set (discoveredNames init) \<subseteq> set (discoveredNames t'))"
    using run counts mono in0 out in1 first by (simp only: names simp_thms)
  then show ?thesis by (rule exI)
qed

section \<open>C8: requests in one interval\<close>

lemma requestTimes_429s:
  "requestTimes p t a (replicate n (Response429, latency, random)) s =
     map (\<lambda>k. t + k * (latency + delay RATE_LIMIT_COOLDOWN_MS random)) [0..<Suc n]"
proof (induction n arbitrary: t a s)
  case 0
  show ?case by simp
next
  case (Suc n)
  let ?d = "latency + delay RATE_LIMIT_COOLDOWN_MS random"
  have "requestTimes p t a (replicate (Suc n) (Response429, latency, random)) s =
        t # map (\<lambda>k. (t + ?d) + k * ?d) [0..<Suc n]"
    by (simp add: queryAPI_settle_def Suc.IH add.assoc del: upt_Suc)
  also have "\<dots> = map (\<lambda>k. t + k * ?d) [0..<Suc (Suc n)]"
    by (simp add: map_upt_Suc [of _ "Suc n"] add.assoc del: upt_Suc)
  finally show ?case .
qed

lemma delay_half: "delay ms (1 / 2) = ms + 100"
  by (simp add: delay_def JITTER_MS_def)

text \<open>
  C8. The interval cap of the queue counts the tasks it starts, and \<open>queryAPI\<close> issues
  its retries itself, without the queue. The queue starts the tasks of the first two
  prefixes at once. When each of them gets 41 answers with status 429, each after 100 ms,
  and \<open>Math.random\<close> gives one half in every delay, they issue 84 requests in the first
  49.2 seconds: more than the 80 of the cap, within one interval of 60 seconds.
\<close>

theorem retries_exceed_interval_cap:
  "(\<exists>s. run [Start, Start] init = Some s
        \<and> queue_running s = [AwaitResponse ''0'' 1, AwaitResponse ''1'' 1]
        \<and> requests s = [(''0'', 1), (''1'', 1)]
        \<and> int (length (queue_running s)) < queue_concurrency s)
   \<and> requestTimes ''0'' 0 1 (replicate 41 (Response429, 100, 1 / 2)) loaded
        = map (\<lambda>k. k * 1200) [0..<42]
   \<and> requestTimes ''1'' 0 1 (replicate 41 (Response429, 100, 1 / 2)) loaded
        = map (\<lambda>k. k * 1200) [0..<42]
   \<and> length (filter (\<lambda>t. t < INTERVAL_MS)
        (requestTimes ''0'' 0 1 (replicate 41 (Response429, 100, 1 / 2)) loaded
         @ requestTimes ''1'' 0 1 (replicate 41 (Response429, 100, 1 / 2)) loaded)) = 84
   \<and> INTERVAL_CAP < 84 \<and> INTERVAL_MS = 60000"
proof -
  let ?s1 = "(queryAPI_enter ''0'' 1 (init\<lparr>queue_waiting := tl VALID_CHARACTERS,
               queue_intervalCount := Suc (queue_intervalCount init),
               visitedPrefixes := insert ''0'' (visitedPrefixes init)\<rparr>))
            \<lparr>queue_running := queue_running init @ [AwaitResponse ''0'' 1]\<rparr>"
  let ?s2 = "(queryAPI_enter ''1'' 1 (?s1\<lparr>queue_waiting := tl (tl VALID_CHARACTERS),
               queue_intervalCount := Suc (queue_intervalCount ?s1),
               visitedPrefixes := insert ''1'' (visitedPrefixes ?s1)\<rparr>))
            \<lparr>queue_running := queue_running ?s1 @ [AwaitResponse ''1'' 1]\<rparr>"
  have 1: "step Start init = Some ?s1"
    by (rule step_Start_new) (simp_all add: init_fields)
  have 2: "step Start ?s1 = Some ?s2"
    by (rule step_Start_new) (simp_all add: init_fields VALID_CHARACTERS_def)
  have run: "run [Start, Start] init = Some ?s2"
    by (simp only: run.simps 1 2 option.case)
  have fields: "queue_running ?s2 = [AwaitResponse ''0'' 1, AwaitResponse ''1'' 1]"
    "requests ?s2 = [(''0'', 1), (''1'', 1)]"
    "int (length (queue_running ?s2)) < queue_concurrency ?s2"
    by (simp_all add: init_fields init_eq loaded_def)
  have times: "requestTimes p 0 1 (replicate 41 (Response429, 100, 1 / 2)) loaded
        = map (\<lambda>k. k * 1200) [0..<42]" for p
    by (simp add: requestTimes_429s delay_half RATE_LIMIT_COOLDOWN_MS_def del: upt_Suc)
  have "\<forall>t \<in> set (map (\<lambda>k. k * 1200) [0..<42]). t < INTERVAL_MS"
    by (auto simp add: INTERVAL_MS_def)
  then have "filter (\<lambda>t. t < INTERVAL_MS) (map (\<lambda>k. k * 1200) [0..<42])
             = map (\<lambda>k. k * 1200) [0..<42]"
    by (simp only: filter_True)
  then have "length (filter (\<lambda>t. t < INTERVAL_MS)
        (map (\<lambda>k. k * 1200) [0..<42] @ map (\<lambda>k. k * 1200) [0..<42])) = 84"
    by (simp only: filter_append length_append length_map length_upt)
  with run fields times show ?thesis
    by (simp add: INTERVAL_CAP_def INTERVAL_MS_def)
qed

end
